theory Spec2Isabelle
  imports Complex_Main
begin

section \<open>Real spherical harmonics: the evaluation engine of \<open>e3nn/rsh.py\<close>\<close>

text \<open>
  The module evaluates real spherical harmonics for a list \<open>ls\<close> of degrees. A tensor is
  processed element by element, so every function below is given for one element of the
  batch: one angle \<open>alpha\<close>, one pair \<open>z\<close>, \<open>y\<close>, one direction \<open>(x, y, z)\<close>. The last tensor
  axis (the orders \<open>m\<close> of a degree, or the concatenated blocks of all degrees) is a list.

  Arithmetic is exact: a tensor entry is a real number or a NaN, and the rounding of
  floating-point operations is outside this development.

  A degree is a natural number, as the data model of the engine has it, in every function
  that takes a list of degrees. The coefficient generator \<open>poly_legendre\<close> alone takes an
  integer: it is the place where a negative degree is asked about.
\<close>

subsection \<open>Tensor entries\<close>

text \<open>
  \<open>Num r\<close> is a finite entry, \<open>NaN\<close> the value torch gives to \<open>0 / 0\<close> and to the square
  root of a negative number. A NaN operand makes the result of \<open>+\<close>, \<open>-\<close>, \<open>*\<close>, \<open>sin\<close>,
  \<open>cos\<close>, \<open>sqrt\<close>, \<open>relu\<close> and \<open>atan2\<close> a NaN. The power \<open>x ** n\<close> with a natural exponent
  is the one of the type class: \<open>x ** 0\<close> is 1 for every \<open>x\<close>, NaN included, which is
  what torch computes.
\<close>

datatype tfloat = Num real | NaN

instantiation tfloat :: "{zero,one,plus,minus,times}"
begin

definition zero_tfloat :: tfloat where
  "zero_tfloat = Num 0"

definition one_tfloat :: tfloat where
  "one_tfloat = Num 1"

fun plus_tfloat :: "tfloat \<Rightarrow> tfloat \<Rightarrow> tfloat" where
  "plus_tfloat (Num a) (Num b) = Num (a + b)"
| "plus_tfloat _ _ = NaN"

fun minus_tfloat :: "tfloat \<Rightarrow> tfloat \<Rightarrow> tfloat" where
  "minus_tfloat (Num a) (Num b) = Num (a - b)"
| "minus_tfloat _ _ = NaN"

fun times_tfloat :: "tfloat \<Rightarrow> tfloat \<Rightarrow> tfloat" where
  "times_tfloat (Num a) (Num b) = Num (a * b)"
| "times_tfloat _ _ = NaN"

instance ..

end

instance tfloat :: power ..

fun tsin :: "tfloat \<Rightarrow> tfloat" where
  "tsin (Num a) = Num (sin a)"
| "tsin NaN = NaN"

fun tcos :: "tfloat \<Rightarrow> tfloat" where
  "tcos (Num a) = Num (cos a)"
| "tcos NaN = NaN"

fun tsqrt :: "tfloat \<Rightarrow> tfloat" where
  "tsqrt (Num a) = (if a < 0 then NaN else Num (sqrt a))"
| "tsqrt NaN = NaN"

fun relu :: "tfloat \<Rightarrow> tfloat" where
  "relu (Num a) = Num (max a 0)"
| "relu NaN = NaN"

text \<open>
  \<open>torch.atan2 y x\<close>: the angle of the point \<open>(x, y)\<close> in \<open>(-pi, pi]\<close>, and 0 at the origin.
\<close>

definition atan2 :: "real \<Rightarrow> real \<Rightarrow> real" where
  "atan2 y x =
     (if 0 < x then arctan (y / x)
      else if x < 0 then (if 0 \<le> y then arctan (y / x) + pi else arctan (y / x) - pi)
      else if 0 < y then pi / 2
      else if y < 0 then - (pi / 2)
      else 0)"

fun tatan2 :: "tfloat \<Rightarrow> tfloat \<Rightarrow> tfloat" where
  "tatan2 (Num y) (Num x) = Num (atan2 y x)"
| "tatan2 _ _ = NaN"

text \<open>
  Division: \<open>0 / 0\<close> is NaN. A nonzero numerator over zero is an infinity in torch, and an
  entry of this development has no infinity: that quotient is NaN here, which is not the
  value of torch. The program divides only the components of a vector by the vector's own
  norm. In exact arithmetic a zero norm forces zero numerators (lemma \<open>tnorm_zero_iff\<close>)
  and the quotient does not occur; in floating point it does occur, when the squares of
  small nonzero components underflow to zero, and that case is outside this development.
\<close>

fun tdiv :: "tfloat \<Rightarrow> tfloat \<Rightarrow> tfloat" where
  "tdiv (Num a) (Num b) = (if b = 0 then NaN else Num (a / b))"
| "tdiv _ _ = NaN"

subsection \<open>Errors\<close>

text \<open>
  The exceptions the code can raise: \<open>ValueError\<close> (\<open>max\<close> of an empty list),
  \<open>IndexError\<close> (a tensor indexed out of range), \<open>RuntimeError\<close> (torch: stacking no
  tensor, shapes that do not broadcast, and in a scripted function a list read out of
  range or an undefined name),
  \<open>SyntaxError\<close> (generated program text that does not parse) and \<open>PolynomialError\<close>
  (sympy: an expression that is no polynomial). \<open>InvalidDegree\<close> and \<open>DegenerateVector\<close>
  are the errors the specification names; no statement of the source raises them.
\<close>

datatype error =
    ValueError | IndexError | RuntimeError | SyntaxError | PolynomialError
  | InvalidDegree | DegenerateVector

subsection \<open>Python slices and broadcasting\<close>

text \<open>
  \<open>xs[a:b]\<close> for integers \<open>a\<close>, \<open>b\<close>: a negative bound counts from the end, and both
  bounds are clamped to the list.
\<close>

definition slice_bound :: "nat \<Rightarrow> int \<Rightarrow> nat" where
  "slice_bound n a = (if a < 0 then nat (max (int n + a) 0) else min (nat a) n)"

definition py_slice :: "'a list \<Rightarrow> int \<Rightarrow> int \<Rightarrow> 'a list" where
  "py_slice xs a b = take (slice_bound (length xs) b - slice_bound (length xs) a)
                          (drop (slice_bound (length xs) a) xs)"

text \<open>
  The elementwise product of two last axes: equal widths multiply entry by entry, a
  width of one is broadcast, any other pair of widths is an error.
\<close>

definition tmul_bcast :: "tfloat list \<Rightarrow> tfloat list \<Rightarrow> error + tfloat list" where
  "tmul_bcast xs ys =
     (if length xs = length ys then Inr (map2 (*) xs ys)
      else if length ys = 1 then Inr (map (\<lambda>x. x * hd ys) xs)
      else if length xs = 1 then Inr (map (\<lambda>y. hd xs * y) ys)
      else Inl RuntimeError)"

subsection \<open>\<open>mul_m_lm\<close>: the combiner\<close>

text \<open>
  \<^verbatim>\<open>
  lmax = x_m.shape[-1] // 2
  out = []; i = 0
  for l in ls:
      out.append(x_lm[..., i: i + 2 * l + 1] * x_m[..., lmax - l: lmax + l + 1])
      i += 2 * l + 1
  return torch.cat(out, dim=-1)
  \<close>
  \<open>torch.cat\<close> of no tensor is an error.
\<close>

fun mul_m_lm_loop :: "nat \<Rightarrow> nat \<Rightarrow> nat list \<Rightarrow> tfloat list \<Rightarrow> tfloat list \<Rightarrow> error + tfloat list list" where
  "mul_m_lm_loop lmax i [] x_m x_lm = Inr []"
| "mul_m_lm_loop lmax i (l # ls) x_m x_lm =
     (case tmul_bcast (py_slice x_lm (int i) (int i + 2 * int l + 1))
                      (py_slice x_m (int lmax - int l) (int lmax + int l + 1)) of
        Inl e \<Rightarrow> Inl e
      | Inr blk \<Rightarrow>
          (case mul_m_lm_loop lmax (i + 2 * l + 1) ls x_m x_lm of
             Inl e \<Rightarrow> Inl e
           | Inr out \<Rightarrow> Inr (blk # out)))"

definition mul_m_lm :: "nat list \<Rightarrow> tfloat list \<Rightarrow> tfloat list \<Rightarrow> error + tfloat list" where
  "mul_m_lm ls x_m x_lm =
     (case mul_m_lm_loop (length x_m div 2) 0 ls x_m x_lm of
        Inl e \<Rightarrow> Inl e
      | Inr out \<Rightarrow> if out = [] then Inl RuntimeError else Inr (concat out))"

subsection \<open>\<open>spherical_harmonics_alpha\<close>: the azimuthal factor\<close>

text \<open>
  \<^verbatim>\<open>
  m = torch.arange(1, l + 1);  cos = torch.cos(m * alpha)
  m = torch.arange(l, 0, -1);  sin = torch.sin(m * alpha)
  out = torch.cat([math.sqrt(2) * sin, torch.ones_like(alpha), math.sqrt(2) * cos], dim=-1)
  \<close>
\<close>

definition spherical_harmonics_alpha :: "nat \<Rightarrow> tfloat \<Rightarrow> tfloat list" where
  "spherical_harmonics_alpha l alpha =
     (let cos_m = map (\<lambda>m. tcos (Num (real m) * alpha)) [1..<l + 1];
          sin_m = map (\<lambda>m. tsin (Num (real m) * alpha)) (rev [1..<l + 1])
      in map (\<lambda>s. Num (sqrt 2) * s) sin_m @ [1] @ map (\<lambda>c. Num (sqrt 2) * c) cos_m)"

subsection \<open>\<open>sympy_legendre\<close> and \<open>poly_legendre\<close>: the coefficient generator\<close>

text \<open>
  sympy's polynomials in \<open>z\<close> are lists of coefficients, the coefficient of \<open>z\<^sup>k\<close> at
  index \<open>k\<close>. \<open>padd\<close>, \<open>pmul\<close> and \<open>ppow\<close> are sum, product and power, \<open>pdiff\<close> is
  \<open>diff(p, z)\<close> and \<open>peval\<close> the value at a point.
\<close>

type_synonym zpoly = "real list"

fun padd :: "zpoly \<Rightarrow> zpoly \<Rightarrow> zpoly" where
  "padd [] q = q"
| "padd p [] = p"
| "padd (a # p) (b # q) = (a + b) # padd p q"

fun pmul :: "zpoly \<Rightarrow> zpoly \<Rightarrow> zpoly" where
  "pmul [] q = []"
| "pmul (a # p) q = padd (map ((*) a) q) (0 # pmul p q)"

fun ppow :: "zpoly \<Rightarrow> nat \<Rightarrow> zpoly" where
  "ppow p 0 = [1]"
| "ppow p (Suc n) = pmul p (ppow p n)"

fun pdiff_from :: "nat \<Rightarrow> zpoly \<Rightarrow> zpoly" where
  "pdiff_from k [] = []"
| "pdiff_from k (a # p) = (real k * a) # pdiff_from (Suc k) p"

definition pdiff :: "zpoly \<Rightarrow> zpoly" where
  "pdiff p = pdiff_from 1 (tl p)"

fun peval :: "zpoly \<Rightarrow> real \<Rightarrow> real" where
  "peval [] x = 0"
| "peval (a # p) x = a + x * peval p x"

text \<open>
  \<^verbatim>\<open>
  l = Integer(l); m = Integer(abs(m))
  ex = 1 / (2**l * factorial(l)) * y**m * diff((z**2 - 1)**l, z, l + m)
  ex *= (-1)**l * sqrt((2 * l + 1) / (4 * pi) * factorial(l - m) / factorial(l + m))
  \<close>
  The expression is a polynomial in \<open>z\<close> times \<open>y\<^sup>m\<close>: the result is the pair of that
  polynomial and the exponent of \<open>y\<close>. For \<open>l < abs(m)\<close> the factorial of a negative
  integer is sympy's complex infinity and the expression is no polynomial: \<open>None\<close>.
  The degree is a natural number here, as \<open>poly_legendre\<close> never passes another one.
\<close>

definition legendre_norm :: "nat \<Rightarrow> nat \<Rightarrow> real" where
  "legendre_norm l m =
     (- 1) ^ l * sqrt (real (2 * l + 1) / (4 * pi) * fact (l - m) / fact (l + m))"

definition sympy_legendre :: "nat \<Rightarrow> int \<Rightarrow> (zpoly \<times> nat) option" where
  "sympy_legendre l m =
     (let m' = nat \<bar>m\<bar> in
      if l < m' then None
      else
        let ex = map ((*) (1 / (2 ^ l * fact l))) ((pdiff ^^ (l + m')) (ppow [- 1, 0, 1] l))
        in Some (map (\<lambda>c. c * legendre_norm l m') ex, m'))"

text \<open>
  \<^verbatim>\<open>
  ps = []
  for m in range(l + 1):
      p = Poly(sympy_legendre(l, m), domain='R', gens=(z, y))
      ps += [[(float(coef), exp) for exp, coef in p.as_dict().items()]]
  return ps
  \<close>
  \<open>as_dict\<close> holds the monomials with a nonzero coefficient, by ascending exponent of
  \<open>z\<close>. A term is \<open>(coef, (nz, ny))\<close>. The decorator of \<open>poly_legendre\<close> memoises the
  table of a degree on disk and does not change what is returned.
\<close>

type_synonym pterm = "real \<times> nat \<times> nat"
type_synonym table = "pterm list list"

definition as_terms :: "zpoly \<times> nat \<Rightarrow> pterm list" where
  "as_terms ex = (case ex of (p, m) \<Rightarrow>
     map (\<lambda>k. (p ! k, k, m)) (filter (\<lambda>k. p ! k \<noteq> 0) [0..<length p]))"

fun poly_legendre_loop :: "nat \<Rightarrow> nat list \<Rightarrow> error + table" where
  "poly_legendre_loop l [] = Inr []"
| "poly_legendre_loop l (m # ms) =
     (case sympy_legendre l (int m) of
        None \<Rightarrow> Inl PolynomialError
      | Some ex \<Rightarrow>
          (case poly_legendre_loop l ms of
             Inl e \<Rightarrow> Inl e
           | Inr ps \<Rightarrow> Inr (as_terms ex # ps)))"

definition poly_legendre :: "int \<Rightarrow> error + table" where
  "poly_legendre l = poly_legendre_loop (nat l) [0..<nat (l + 1)]"

subsection \<open>\<open>_legendre_eval_polys\<close> and \<open>legendre\<close>: the polar factor\<close>

text \<open>
  \<^verbatim>\<open>
  p = []
  for m, poly in enumerate(polys):
      val = torch.zeros_like(pwz[0])
      for coef, (nz, ny) in poly:
          val += coef * pwz[nz] * pwy[ny]
      if m == 0: p.append(val)
      else:      p = [val] + p + [val]
  return torch.stack(p, dim=-1)
  \<close>
  The function is scripted: reading a list out of range raises \<open>RuntimeError\<close>, as does
  stacking no tensor.
\<close>

fun eval_terms :: "pterm list \<Rightarrow> tfloat list \<Rightarrow> tfloat list \<Rightarrow> tfloat \<Rightarrow> error + tfloat" where
  "eval_terms [] pwz pwy val = Inr val"
| "eval_terms ((coef, nz, ny) # poly) pwz pwy val =
     (if nz < length pwz \<and> ny < length pwy
      then eval_terms poly pwz pwy (val + Num coef * pwz ! nz * pwy ! ny)
      else Inl RuntimeError)"

fun legendre_eval_loop :: "nat \<Rightarrow> table \<Rightarrow> tfloat list \<Rightarrow> tfloat list \<Rightarrow> tfloat list \<Rightarrow> error + tfloat list" where
  "legendre_eval_loop m [] pwz pwy p = Inr p"
| "legendre_eval_loop m (poly # polys) pwz pwy p =
     (if pwz = [] then Inl RuntimeError
      else
        (case eval_terms poly pwz pwy 0 of
           Inl e \<Rightarrow> Inl e
         | Inr val \<Rightarrow>
             legendre_eval_loop (Suc m) polys pwz pwy
               (if m = 0 then p @ [val] else [val] @ p @ [val])))"

definition legendre_eval_polys :: "table \<Rightarrow> tfloat list \<Rightarrow> tfloat list \<Rightarrow> error + tfloat list" where
  "legendre_eval_polys polys pwz pwy =
     (case legendre_eval_loop 0 polys pwz pwy [] of
        Inl e \<Rightarrow> Inl e
      | Inr p \<Rightarrow> if p = [] then Inl RuntimeError else Inr p)"

text \<open>
  \<^verbatim>\<open>
  if y is None:
      y = (1 - z**2).relu().sqrt()
  zs = [z**m for m in range(max(ls) + 1)]
  ys = [y**m for m in range(max(ls) + 1)]
  ps = []
  for l in ls:
      polys = poly_legendre(l)
      ps += [_legendre_eval_polys(polys, zs, ys)]
  return torch.cat(ps, dim=-1)
  \<close>
\<close>

definition default_y :: "tfloat \<Rightarrow> tfloat" where
  "default_y z = tsqrt (relu (1 - z ^ 2))"

fun legendre_loop :: "nat list \<Rightarrow> tfloat list \<Rightarrow> tfloat list \<Rightarrow> error + tfloat list list" where
  "legendre_loop [] zs ys = Inr []"
| "legendre_loop (l # ls) zs ys =
     (case poly_legendre (int l) of
        Inl e \<Rightarrow> Inl e
      | Inr polys \<Rightarrow>
          (case legendre_eval_polys polys zs ys of
             Inl e \<Rightarrow> Inl e
           | Inr blk \<Rightarrow>
               (case legendre_loop ls zs ys of
                  Inl e \<Rightarrow> Inl e
                | Inr ps \<Rightarrow> Inr (blk # ps))))"

definition legendre :: "nat list \<Rightarrow> tfloat \<Rightarrow> tfloat option \<Rightarrow> error + tfloat list" where
  "legendre ls z y_opt =
     (let y = (case y_opt of None \<Rightarrow> default_y z | Some y \<Rightarrow> y) in
      if ls = [] then Inl ValueError
      else
        let zs = map (\<lambda>m. z ^ m) [0..<Max (set ls) + 1];
            ys = map (\<lambda>m. y ^ m) [0..<Max (set ls) + 1]
        in (case legendre_loop ls zs ys of
              Inl e \<Rightarrow> Inl e
            | Inr ps \<Rightarrow> Inr (concat ps)))"

definition spherical_harmonics_beta :: "nat list \<Rightarrow> tfloat \<Rightarrow> tfloat option \<Rightarrow> error + tfloat list" where
  "spherical_harmonics_beta ls cosbeta abssinbeta = legendre ls cosbeta abssinbeta"

subsection \<open>\<open>spherical_harmonics_alpha_z_y_cpu\<close>: the generic path\<close>

text \<open>
  \<^verbatim>\<open>
  sha = spherical_harmonics_alpha(max(ls), alpha.flatten())
  shb = spherical_harmonics_beta(ls, z.flatten(), y.flatten())
  out = mul_m_lm(ls, sha, shb)
  \<close>
\<close>

definition spherical_harmonics_alpha_z_y_cpu :: "nat list \<Rightarrow> tfloat \<Rightarrow> tfloat \<Rightarrow> tfloat \<Rightarrow> error + tfloat list" where
  "spherical_harmonics_alpha_z_y_cpu ls alpha z y =
     (if ls = [] then Inl ValueError
      else
        let sha = spherical_harmonics_alpha (Max (set ls)) alpha in
        (case spherical_harmonics_beta ls z (Some y) of
           Inl e \<Rightarrow> Inl e
         | Inr shb \<Rightarrow> mul_m_lm ls sha shb))"

subsection \<open>The specialised kernel and its cache\<close>

text \<open>
  \<open>_spherical_harmonics_alpha_z_y_jit\<close> writes the text of a scripted function \<open>main\<close> and
  compiles it. The generated program is kept as data: the assignments of the variables
  \<open>l{l}_{m}\<close> (a variable is the pair \<open>(l, m)\<close>), each to a formula that is a sum of terms
  \<open>c * z**zn * y**yn\<close>; the variables stacked into \<open>shb\<close>; and the two values put in
  the text for \<open>lmax\<close> and \<open>ls\<close>.
  \<^verbatim>\<open>
  for l in ls:
      for m, p in enumerate(poly_legendre(l)):
          formula = " + ".join("{:.25f} * z**{} * y**{}".format(c, zn, yn) for c, (zn, yn) in p)
          ll_m += "    l{}_{} = {}\n".format(l, m, formula)
      shb += "        {},\n".format(", ".join("l{}_{}".format(l, abs(m)) for m in range(-l, l + 1)))
  code = code.replace("lmax", str(max(ls)))
  ...
  return eval_code(code).main
  \<close>
  A coefficient is written with 25 decimals and read back as a float literal; the literal
  is taken to be the coefficient itself. Compiling fails on an empty formula (the text
  \<open>l{l}_{m} = \<close> does not parse) and on a stacked variable that no assignment defines.
\<close>

type_synonym var = "nat \<times> nat"

record kernel =
  k_ll_m :: "(var \<times> pterm list) list"
  k_shb :: "var list"
  k_lmax :: nat
  k_ls :: "nat list"

fun jit_code_loop :: "nat list \<Rightarrow> (var \<times> pterm list) list \<Rightarrow> var list \<Rightarrow>
    error + (var \<times> pterm list) list \<times> var list" where
  "jit_code_loop [] ll_m shb = Inr (ll_m, shb)"
| "jit_code_loop (l # ls) ll_m shb =
     (case poly_legendre (int l) of
        Inl e \<Rightarrow> Inl e
      | Inr polys \<Rightarrow>
          jit_code_loop ls
            (ll_m @ map (\<lambda>(m, p). ((l, m), p)) (enumerate 0 polys))
            (shb @ map (\<lambda>m. (l, nat \<bar>m\<bar>)) [- int l..int l]))"

definition spherical_harmonics_alpha_z_y_jit_build :: "nat list \<Rightarrow> error + kernel" where
  "spherical_harmonics_alpha_z_y_jit_build ls =
     (case jit_code_loop ls [] [] of
        Inl e \<Rightarrow> Inl e
      | Inr (ll_m, shb) \<Rightarrow>
          if ls = [] then Inl ValueError
          else if list_ex (\<lambda>a. snd a = []) ll_m then Inl SyntaxError
          else if list_ex (\<lambda>v. v \<notin> fst ` set ll_m) shb then Inl RuntimeError
          else Inr \<lparr>k_ll_m = ll_m, k_shb = shb, k_lmax = Max (set ls), k_ls = ls\<rparr>)"

text \<open>
  Running \<open>main(alpha, z, y)\<close>: the assignments in program order, then
  \<^verbatim>\<open>
  shb = torch.stack([...], dim=-1)
  sha = rsh.spherical_harmonics_alpha(lmax, alpha)
  return rsh.mul_m_lm(ls, sha, shb)
  \<close>
\<close>

definition term_val :: "pterm \<Rightarrow> tfloat \<Rightarrow> tfloat \<Rightarrow> tfloat" where
  "term_val t z y = (case t of (c, zn, yn) \<Rightarrow> Num c * z ^ zn * y ^ yn)"

fun formula_val :: "pterm list \<Rightarrow> tfloat \<Rightarrow> tfloat \<Rightarrow> error + tfloat" where
  "formula_val [] z y = Inl SyntaxError"
| "formula_val (t # ts) z y = Inr (foldl (\<lambda>acc t'. acc + term_val t' z y) (term_val t z y) ts)"

fun exec_ll_m :: "(var \<times> pterm list) list \<Rightarrow> (var \<rightharpoonup> tfloat) \<Rightarrow> tfloat \<Rightarrow> tfloat \<Rightarrow>
    error + (var \<rightharpoonup> tfloat)" where
  "exec_ll_m [] env z y = Inr env"
| "exec_ll_m ((v, f) # rest) env z y =
     (case formula_val f z y of
        Inl e \<Rightarrow> Inl e
      | Inr x \<Rightarrow> exec_ll_m rest (env(v \<mapsto> x)) z y)"

fun stack_vars :: "var list \<Rightarrow> (var \<rightharpoonup> tfloat) \<Rightarrow> error + tfloat list" where
  "stack_vars [] env = Inr []"
| "stack_vars (v # vs) env =
     (case env v of
        None \<Rightarrow> Inl RuntimeError
      | Some x \<Rightarrow>
          (case stack_vars vs env of
             Inl e \<Rightarrow> Inl e
           | Inr xs \<Rightarrow> Inr (x # xs)))"

definition kernel_main :: "kernel \<Rightarrow> tfloat \<Rightarrow> tfloat \<Rightarrow> tfloat \<Rightarrow> error + tfloat list" where
  "kernel_main k alpha z y =
     (case exec_ll_m (k_ll_m k) Map.empty z y of
        Inl e \<Rightarrow> Inl e
      | Inr env \<Rightarrow>
          (case stack_vars (k_shb k) env of
             Inl e \<Rightarrow> Inl e
           | Inr shb \<Rightarrow>
               if shb = [] then Inl RuntimeError
               else mul_m_lm (k_ls k) (spherical_harmonics_alpha (k_lmax k) alpha) shb))"

text \<open>
  \<open>@lru_cache()\<close> keeps the compiled kernels of the 128 most recently used degree tuples.
  The cache is a list of entries, the most recently used first; a failed compilation
  stores nothing.
\<close>

type_synonym kernel_cache = "(nat list \<times> kernel) list"

definition spherical_harmonics_alpha_z_y_jit_cached ::
    "kernel_cache \<Rightarrow> nat list \<Rightarrow> (error + kernel) \<times> kernel_cache" where
  "spherical_harmonics_alpha_z_y_jit_cached cache ls =
     (case map_of cache ls of
        Some k \<Rightarrow> (Inr k, (ls, k) # filter (\<lambda>e. fst e \<noteq> ls) cache)
      | None \<Rightarrow>
          (case spherical_harmonics_alpha_z_y_jit_build ls of
             Inl e \<Rightarrow> (Inl e, cache)
           | Inr k \<Rightarrow> (Inr k, take 128 ((ls, k) # cache))))"

definition spherical_harmonics_alpha_z_y_jit ::
    "kernel_cache \<Rightarrow> nat list \<Rightarrow> tfloat \<Rightarrow> tfloat \<Rightarrow> tfloat \<Rightarrow> (error + tfloat list) \<times> kernel_cache" where
  "spherical_harmonics_alpha_z_y_jit cache ls alpha z y =
     (case spherical_harmonics_alpha_z_y_jit_cached cache ls of
        (Inl e, cache') \<Rightarrow> (Inl e, cache')
      | (Inr f, cache') \<Rightarrow> (kernel_main f alpha z y, cache'))"

text \<open>
  A cache as the program can hold it: every entry was compiled from its own key.
\<close>

definition cache_ok :: "kernel_cache \<Rightarrow> bool" where
  "cache_ok cache = list_all (\<lambda>e. spherical_harmonics_alpha_z_y_jit_build (fst e) = Inr (snd e)) cache"

subsection \<open>\<open>spherical_harmonics_xyz_cpu\<close>: the Cartesian entry point\<close>

text \<open>
  \<^verbatim>\<open>
  xyz = xyz / torch.norm(xyz, 2, dim=-1, keepdim=True)
  alpha = torch.atan2(xyz[..., 1], xyz[..., 0])
  beta_cos = xyz[..., 2]
  beta_asin = (xyz[..., 0].pow(2) + xyz[..., 1].pow(2)).sqrt()
  return spherical_harmonics_alpha_z_y_jit(ls, alpha, beta_cos, beta_asin)
  \<close>
  The norm and the three quotients are exact here, as all arithmetic of this development.
  In floating point each of these operations rounds, and a square may underflow or
  overflow: whether two inputs of the same direction give the same entries to the last
  bit is a question about that rounding, and no statement below answers it.
\<close>

definition tnorm :: "tfloat \<times> tfloat \<times> tfloat \<Rightarrow> tfloat" where
  "tnorm v = (case v of (x, y, z) \<Rightarrow> tsqrt (x ^ 2 + y ^ 2 + z ^ 2))"

definition normalize :: "tfloat \<times> tfloat \<times> tfloat \<Rightarrow> tfloat \<times> tfloat \<times> tfloat" where
  "normalize v = (case v of (x, y, z) \<Rightarrow> (tdiv x (tnorm v), tdiv y (tnorm v), tdiv z (tnorm v)))"

definition spherical_harmonics_xyz_cpu ::
    "kernel_cache \<Rightarrow> nat list \<Rightarrow> tfloat \<times> tfloat \<times> tfloat \<Rightarrow> (error + tfloat list) \<times> kernel_cache" where
  "spherical_harmonics_xyz_cpu cache ls xyz =
     (case normalize xyz of (x, y, z) \<Rightarrow>
        let alpha = tatan2 y x;
            beta_cos = z;
            beta_asin = tsqrt (x ^ 2 + y ^ 2)
        in spherical_harmonics_alpha_z_y_jit cache ls alpha beta_cos beta_asin)"

subsection \<open>\<open>spherical_harmonics_xyz_cuda\<close>: the sign correction\<close>

text \<open>
  \<^verbatim>\<open>
  norm_coef = [elem for lh in range((lmax + 1) // 2)
                    for elem in [1.] * (4 * lh + 1) + [-1.] * (4 * lh + 3)]
  if lmax % 2 == 0:
      norm_coef.extend([1.] * (2 * lmax + 1))
  \<close>
\<close>

definition coef_runs :: "nat \<Rightarrow> real list" where
  "coef_runs lh = replicate (4 * lh + 1) 1 @ replicate (4 * lh + 3) (- 1)"

definition norm_coef :: "nat \<Rightarrow> real list" where
  "norm_coef lmax =
     concat (map coef_runs [0..<(lmax + 1) div 2])
     @ (if lmax mod 2 = 0 then replicate (2 * lmax + 1) 1 else [])"

subsection \<open>\<open>spherical_harmonics_expand_matrix\<close>: the layout converter\<close>

text \<open>
  \<^verbatim>\<open>
  lmax = max(ls)
  m = zeros(len(ls), 2 * lmax + 1, sum(2 * l + 1 for l in ls))
  i = 0
  for j, l in enumerate(ls):
      m[j, lmax - l: lmax + l + 1, i:i + 2 * l + 1] = torch.eye(2 * l + 1)
      i += 2 * l + 1
  return m
  \<close>
  A tensor of three axes is a list of matrices, a matrix a list of rows. \<open>set_block\<close>
  is the assignment to the slice \<open>[r0:r1, c0:c1]\<close> of a matrix, the bounds already
  clamped; a block of another shape than the slice is an error.
\<close>

type_synonym matrix = "real list list"
type_synonym tensor3 = "matrix list"

definition zeros3 :: "nat \<Rightarrow> nat \<Rightarrow> nat \<Rightarrow> tensor3" where
  "zeros3 a b c = replicate a (replicate b (replicate c 0))"

definition eye :: "nat \<Rightarrow> matrix" where
  "eye n = map (\<lambda>r. map (\<lambda>c. if r = c then 1 else 0) [0..<n]) [0..<n]"

definition set_block :: "matrix \<Rightarrow> nat \<Rightarrow> nat \<Rightarrow> nat \<Rightarrow> nat \<Rightarrow> matrix \<Rightarrow> error + matrix" where
  "set_block a r0 r1 c0 c1 b =
     (if length b = r1 - r0 \<and> list_all (\<lambda>row. length row = c1 - c0) b
      then Inr (map (\<lambda>r. if r0 \<le> r \<and> r < r1
                          then map (\<lambda>c. if c0 \<le> c \<and> c < c1 then b ! (r - r0) ! (c - c0)
                                         else a ! r ! c) [0..<length (a ! r)]
                          else a ! r) [0..<length a])
      else Inl RuntimeError)"

fun expand_loop :: "nat \<Rightarrow> nat \<Rightarrow> nat \<Rightarrow> nat \<Rightarrow> nat list \<Rightarrow> tensor3 \<Rightarrow> error + tensor3" where
  "expand_loop lmax K j i [] m = Inr m"
| "expand_loop lmax K j i (l # ls) m =
     (if j < length m then
        (case set_block (m ! j)
                (slice_bound (2 * lmax + 1) (int lmax - int l))
                (slice_bound (2 * lmax + 1) (int lmax + int l + 1))
                (slice_bound K (int i))
                (slice_bound K (int i + 2 * int l + 1))
                (eye (2 * l + 1)) of
           Inl e \<Rightarrow> Inl e
         | Inr blk \<Rightarrow> expand_loop lmax K (Suc j) (i + 2 * l + 1) ls (m[j := blk]))
      else Inl IndexError)"

definition spherical_harmonics_expand_matrix :: "nat list \<Rightarrow> error + tensor3" where
  "spherical_harmonics_expand_matrix ls =
     (if ls = [] then Inl ValueError
      else
        let lmax = Max (set ls);
            K = sum_list (map (\<lambda>l. 2 * l + 1) ls)
        in expand_loop lmax K 0 0 ls (zeros3 (length ls) (2 * lmax + 1) K))"

text \<open>
  The two products of the layout round trip. \<open>flat_to_matrix\<close> multiplies a flat vector
  by the tensor: entry \<open>(j, c)\<close> is the sum over \<open>k\<close> of \<open>m[j, c, k] * v[k]\<close>.
  \<open>matrix_to_flat\<close> contracts back: entry \<open>k\<close> is the sum over \<open>(j, c)\<close> of
  \<open>m[j, c, k] * e[j, c]\<close>.
\<close>

definition flat_to_matrix :: "tensor3 \<Rightarrow> real list \<Rightarrow> matrix" where
  "flat_to_matrix m v =
     map (\<lambda>mj. map (\<lambda>mjc. (\<Sum>k\<leftarrow>[0..<length v]. mjc ! k * v ! k)) mj) m"

definition matrix_to_flat :: "tensor3 \<Rightarrow> nat \<Rightarrow> matrix \<Rightarrow> real list" where
  "matrix_to_flat m K e =
     map (\<lambda>k. (\<Sum>j\<leftarrow>[0..<length m]. (\<Sum>c\<leftarrow>[0..<length (m ! j)]. m ! j ! c ! k * e ! j ! c)))
         [0..<K]"

subsection \<open>Closed forms of the loops\<close>

text \<open>
  These are not functions of the program. They name what its loops compute, and the
  lemmas below state the loops through them: the table \<open>poly_legendre\<close> returns for a
  degree \<open>l \<ge> 0\<close>; the value the inner loop of \<open>_legendre_eval_polys\<close> accumulates for one
  polynomial; the block of a degree, the values of the orders \<open>l, ..., 1, 0, 1, ..., l\<close>;
  the power tables \<open>[z**m for m in range(n + 1)]\<close>; and the assignments and the stacked
  variables that the kernel generator writes for one degree.
\<close>

definition legendre_table :: "nat \<Rightarrow> table" where
  "legendre_table l = map (\<lambda>m. as_terms (the (sympy_legendre l (int m)))) [0..<l + 1]"

definition poly_val :: "tfloat \<Rightarrow> tfloat \<Rightarrow> pterm list \<Rightarrow> tfloat" where
  "poly_val z y f = foldl (\<lambda>acc t. acc + term_val t z y) 0 f"

definition beta_block :: "tfloat \<Rightarrow> tfloat \<Rightarrow> nat \<Rightarrow> tfloat list" where
  "beta_block z y l =
     rev (map (poly_val z y) (tl (legendre_table l))) @ map (poly_val z y) (legendre_table l)"

definition powers :: "tfloat \<Rightarrow> nat \<Rightarrow> tfloat list" where
  "powers z n = map (\<lambda>m. z ^ m) [0..<n + 1]"

definition ll_m_of :: "nat \<Rightarrow> (var \<times> pterm list) list" where
  "ll_m_of l = map (\<lambda>(m, p). ((l, m), p)) (enumerate 0 (legendre_table l))"

definition shb_of :: "nat \<Rightarrow> var list" where
  "shb_of l = map (\<lambda>m. (l, nat \<bar>m\<bar>)) [- int l..int l]"

text \<open>
  For the layout converter: the column at which the block of the \<open>j\<close>-th degree starts,
  the matrix that one pass of the loop writes at the place \<open>j\<close> (the identity of size
  \<open>2 l + 1\<close> in the rows \<open>lmax - l, ..., lmax + l\<close> and the columns \<open>i, ..., i + 2 l\<close> of a
  zero matrix), and the list of these matrices.
\<close>

definition offset :: "nat list \<Rightarrow> nat \<Rightarrow> nat" where
  "offset ls j = sum_list (map (\<lambda>l. 2 * l + 1) (take j ls))"

definition expand_block :: "nat \<Rightarrow> nat \<Rightarrow> nat \<Rightarrow> nat \<Rightarrow> matrix" where
  "expand_block lmax K i l =
     map (\<lambda>r. map (\<lambda>c. if lmax - l \<le> r \<and> r < lmax + l + 1 \<and> i \<le> c \<and> c < i + 2 * l + 1 \<and>
                           r - (lmax - l) = c - i then 1 else 0) [0..<K]) [0..<2 * lmax + 1]"

fun expand_blocks :: "nat \<Rightarrow> nat \<Rightarrow> nat \<Rightarrow> nat list \<Rightarrow> tensor3" where
  "expand_blocks lmax K i [] = []"
| "expand_blocks lmax K i (l # ls) =
     expand_block lmax K i l # expand_blocks lmax K (i + 2 * l + 1) ls"

section \<open>Properties\<close>

subsection \<open>The sign correction of the accelerator path\<close>

lemma length_coef_runs: "length (coef_runs k) = 8 * k + 4"
  by (simp add: coef_runs_def)

lemma length_coef_prefix: "length (concat (map coef_runs [0..<h])) = 4 * h * h"
  by (induction h) (simp_all add: length_coef_runs algebra_simps)

lemma coef_prefix_split:
  assumes "k < h"
  shows "concat (map coef_runs [0..<h]) =
     concat (map coef_runs [0..<k]) @ coef_runs k @ concat (map coef_runs [Suc k..<h])"
proof -
  from assms have "[0..<h] = [0..<k] @ k # [Suc k..<h]"
    using upt_add_eq_append [of 0 k "h - k"] upt_conv_Cons [of k h] by simp
  then show ?thesis by simp
qed

lemma norm_coef_length: "length (norm_coef lmax) = (lmax + 1)\<^sup>2"
proof (cases "even lmax")
  case True
  then obtain h where "lmax = 2 * h" by (elim evenE)
  then show ?thesis
    by (simp add: norm_coef_def length_coef_prefix length_coef_runs power2_eq_square)
next
  case False
  then obtain h where "lmax = 2 * h + 1" by (elim oddE)
  then show ?thesis
    by (simp add: norm_coef_def length_coef_prefix length_coef_runs power2_eq_square)
qed

lemma norm_coef_pos_run:
  assumes "k < (lmax + 1) div 2"
  shows "take (4 * k + 1) (drop (4 * k * k) (norm_coef lmax)) = replicate (4 * k + 1) 1"
proof -
  define B where "B = replicate (4 * k + 3) (- 1 :: real)
        @ concat (map coef_runs [Suc k..<(lmax + 1) div 2])
        @ (if lmax mod 2 = 0 then replicate (2 * lmax + 1) 1 else [])"
  have "norm_coef lmax = concat (map coef_runs [0..<k]) @ (replicate (4 * k + 1) 1 @ B)"
    unfolding norm_coef_def coef_prefix_split [OF assms] B_def by (simp add: coef_runs_def)
  then have "drop (4 * k * k) (norm_coef lmax) = replicate (4 * k + 1) 1 @ B"
    by (simp add: length_coef_prefix)
  then show ?thesis by simp
qed

lemma norm_coef_neg_run:
  assumes "k < (lmax + 1) div 2"
  shows "take (4 * k + 3) (drop (4 * k * k + 4 * k + 1) (norm_coef lmax)) =
         replicate (4 * k + 3) (- 1)"
proof -
  define A where "A = concat (map coef_runs [0..<k]) @ replicate (4 * k + 1) (1::real)"
  define B where "B = concat (map coef_runs [Suc k..<(lmax + 1) div 2])
        @ (if lmax mod 2 = 0 then replicate (2 * lmax + 1) (1::real) else [])"
  have "norm_coef lmax = A @ (replicate (4 * k + 3) (- 1) @ B)"
    unfolding norm_coef_def coef_prefix_split [OF assms] A_def B_def
    by (simp add: coef_runs_def)
  moreover have "length A = 4 * k * k + 4 * k + 1"
    by (simp add: A_def length_coef_prefix)
  ultimately have "drop (4 * k * k + 4 * k + 1) (norm_coef lmax) =
      replicate (4 * k + 3) (- 1) @ B"
    by simp
  then show ?thesis by simp
qed

lemma norm_coef_last_run:
  assumes "even lmax"
  shows "drop (lmax * lmax) (norm_coef lmax) = replicate (2 * lmax + 1) 1"
proof -
  from assms obtain h where h: "lmax = 2 * h" by (elim evenE)
  have "length (concat (map coef_runs [0..<h])) = lmax * lmax"
    by (simp add: length_coef_prefix h)
  moreover have "norm_coef lmax = concat (map coef_runs [0..<h]) @ replicate (2 * lmax + 1) 1"
    by (simp add: norm_coef_def h)
  ultimately show ?thesis by simp
qed

text \<open>
  Claim C8. For every maximal degree \<open>lmax\<close> (in particular for \<open>lmax \<le> 10\<close>, where the
  accelerator is used) the sign vector has \<open>(lmax + 1)\<^sup>2\<close> entries. For each \<open>k\<close> below
  \<open>(lmax + 1) div 2\<close> it holds, from position \<open>4 k\<^sup>2\<close> on, a run of \<open>4 k + 1\<close> entries
  \<open>+1\<close> (the block of the even degree \<open>2 k\<close>) followed by a run of \<open>4 k + 3\<close> entries
  \<open>-1\<close> (the block of the odd degree \<open>2 k + 1\<close>); when \<open>lmax\<close> is even, the vector ends
  with a run of \<open>2 lmax + 1\<close> entries \<open>+1\<close>.
\<close>

theorem norm_coef_runs:
  "length (norm_coef lmax) = (lmax + 1)\<^sup>2 \<and>
   (\<forall>k < (lmax + 1) div 2.
      take (4 * k + 1) (drop (4 * k * k) (norm_coef lmax)) = replicate (4 * k + 1) 1 \<and>
      take (4 * k + 3) (drop (4 * k * k + 4 * k + 1) (norm_coef lmax)) =
        replicate (4 * k + 3) (- 1)) \<and>
   (even lmax \<longrightarrow> drop (lmax * lmax) (norm_coef lmax) = replicate (2 * lmax + 1) 1)"
  using norm_coef_length norm_coef_pos_run norm_coef_neg_run norm_coef_last_run by blast

theorem norm_coef_runs_witness:
  "length (norm_coef 2) = 9 \<and>
   take 1 (norm_coef 2) = [1] \<and>
   take 3 (drop 1 (norm_coef 2)) = [- 1, - 1, - 1] \<and>
   drop 4 (norm_coef 2) = [1, 1, 1, 1, 1]"
proof -
  have k: "(0::nat) < (2 + 1) div 2" by simp
  have e: "even (2::nat)" by simp
  from norm_coef_runs [of 2] k e
  have "length (norm_coef 2) = (2 + 1)\<^sup>2"
    and "take (4 * 0 + 1) (drop (4 * 0 * 0) (norm_coef 2)) = replicate (4 * 0 + 1) 1"
    and "take (4 * 0 + 3) (drop (4 * 0 * 0 + 4 * 0 + 1) (norm_coef 2)) =
           replicate (4 * 0 + 3) (- 1)"
    and "drop (2 * 2) (norm_coef 2) = replicate (2 * 2 + 1) 1"
    by blast+
  then show ?thesis by (simp add: numeral_eq_Suc)
qed

subsection \<open>Negative degrees in the coefficient generator\<close>

text \<open>
  Claim C4, as stated, fails: for the degree \<open>-1\<close> the generator raises nothing
  and returns the empty table.
\<close>

theorem poly_legendre_negative_counterexample:
  "poly_legendre (- 1) = Inr [] \<and> poly_legendre (- 1) \<noteq> Inl InvalidDegree"
  by (simp add: poly_legendre_def)

text \<open>
  Claim C4, amended. For every degree \<open>l < 0\<close> the loop over \<open>range(l + 1)\<close> is empty:
  \<open>poly_legendre\<close> returns the empty table and raises no error.
\<close>

theorem poly_legendre_negative:
  "l < 0 \<Longrightarrow> poly_legendre l = Inr []"
  by (simp add: poly_legendre_def)

theorem poly_legendre_negative_witness:
  "(- 3 :: int) < 0 \<and> poly_legendre (- 3) = Inr []"
  using poly_legendre_negative [of "- 3"] by simp

subsection \<open>Arithmetic of tensor entries\<close>

lemma Num_power: "Num a ^ n = Num (a ^ n)"
  by (induction n) (simp_all add: one_tfloat_def)

lemma default_y_Num: "default_y (Num r) = Num (sqrt (max (1 - r\<^sup>2) 0))"
  by (simp add: default_y_def Num_power one_tfloat_def)

subsection \<open>The default of \<open>y\<close> in \<open>legendre\<close>\<close>

text \<open>
  Claim C10. Called without \<open>y\<close> on a real \<open>z\<close>, \<open>legendre\<close> works with
  \<open>y = sqrt (max (1 - z\<^sup>2) 0)\<close>: the argument of the square root is the clamped value
  \<open>max (1 - z\<^sup>2) 0\<close>, which is not negative, so the square root is that of a
  non-negative number for every real \<open>z\<close> (also for \<open>\<bar>z\<bar> > 1\<close>), the derived \<open>y\<close> is a
  number and not a NaN, and it is not negative.
\<close>

theorem legendre_default_y:
  "legendre ls (Num r) None = legendre ls (Num r) (Some (Num (sqrt (max (1 - r\<^sup>2) 0)))) \<and>
   relu (1 - Num r ^ 2) = Num (max (1 - r\<^sup>2) 0) \<and>
   0 \<le> max (1 - r\<^sup>2) 0 \<and>
   default_y (Num r) = Num (sqrt (max (1 - r\<^sup>2) 0)) \<and>
   0 \<le> sqrt (max (1 - r\<^sup>2) 0)"
  by (simp add: legendre_def default_y_Num Num_power one_tfloat_def)

subsection \<open>The azimuthal factor\<close>

lemma length_spherical_harmonics_alpha: "length (spherical_harmonics_alpha l alpha) = 2 * l + 1"
  by (simp add: spherical_harmonics_alpha_def)

lemma alpha_sin_entry:
  assumes "i < l"
  shows "spherical_harmonics_alpha l (Num a) ! i = Num (sqrt 2 * sin (real (l - i) * a))"
proof -
  from assms have "rev [1..<l + 1] ! i = l - i"
    by (simp add: rev_nth del: upt_Suc)
  with assms show ?thesis
    by (simp add: spherical_harmonics_alpha_def nth_append Let_def del: upt_Suc)
qed

lemma alpha_centre_entry: "spherical_harmonics_alpha l alpha ! l = 1"
  by (simp add: spherical_harmonics_alpha_def nth_append Let_def del: upt_Suc)

lemma alpha_cos_entry:
  assumes "1 \<le> i" "i \<le> l"
  shows "spherical_harmonics_alpha l (Num a) ! (l + i) = Num (sqrt 2 * cos (real i * a))"
proof -
  from assms obtain j where j: "i = Suc j" by (cases i) auto
  with assms have "j < l" by simp
  then have "[1..<l + 1] ! j = i"
    by (simp add: j del: upt_Suc)
  with \<open>j < l\<close> show ?thesis
    by (simp add: spherical_harmonics_alpha_def nth_append Let_def j del: upt_Suc)
qed


text \<open>
  Claim C5. For every maximal degree \<open>l\<close> and every angle the azimuthal factor has
  width \<open>2 l + 1\<close>, and for a real angle \<open>a\<close> its entries are, in this order,
  \<open>sqrt 2 * sin (l a)\<close>, ..., \<open>sqrt 2 * sin a\<close> (position \<open>i < l\<close> holds the multiple
  \<open>l - i\<close>), then \<open>1\<close> at position \<open>l\<close>, then \<open>sqrt 2 * cos a\<close>, ...,
  \<open>sqrt 2 * cos (l a)\<close> (position \<open>l + i\<close> holds the multiple \<open>i\<close>).
\<close>

theorem spherical_harmonics_alpha_layout:
  "length (spherical_harmonics_alpha l alpha) = 2 * l + 1 \<and>
   (\<forall>i<l. spherical_harmonics_alpha l (Num a) ! i = Num (sqrt 2 * sin (real (l - i) * a))) \<and>
   spherical_harmonics_alpha l (Num a) ! l = Num 1 \<and>
   (\<forall>i. 1 \<le> i \<and> i \<le> l \<longrightarrow>
        spherical_harmonics_alpha l (Num a) ! (l + i) = Num (sqrt 2 * cos (real i * a)))"
  using length_spherical_harmonics_alpha alpha_sin_entry alpha_centre_entry alpha_cos_entry
  by (simp add: one_tfloat_def)

theorem spherical_harmonics_alpha_layout_witness:
  "length (spherical_harmonics_alpha 2 (Num (pi / 2))) = 5 \<and>
   spherical_harmonics_alpha 2 (Num (pi / 2)) ! 0 = Num 0 \<and>
   spherical_harmonics_alpha 2 (Num (pi / 2)) ! 1 = Num (sqrt 2) \<and>
   spherical_harmonics_alpha 2 (Num (pi / 2)) ! 2 = Num 1 \<and>
   spherical_harmonics_alpha 2 (Num (pi / 2)) ! 3 = Num 0 \<and>
   spherical_harmonics_alpha 2 (Num (pi / 2)) ! 4 = Num (- sqrt 2)"
proof -
  note t = spherical_harmonics_alpha_layout [of 2 "Num (pi / 2)" "pi / 2"]
  have len: "length (spherical_harmonics_alpha 2 (Num (pi / 2))) = 2 * 2 + 1"
    using t by (rule conjunct1)
  have s: "\<And>i. i < 2 \<Longrightarrow> spherical_harmonics_alpha 2 (Num (pi / 2)) ! i =
      Num (sqrt 2 * sin (real (2 - i) * (pi / 2)))"
    using t by blast
  have m: "spherical_harmonics_alpha 2 (Num (pi / 2)) ! 2 = Num 1"
    using t by blast
  have c: "\<And>i. 1 \<le> i \<Longrightarrow> i \<le> 2 \<Longrightarrow> spherical_harmonics_alpha 2 (Num (pi / 2)) ! (2 + i) =
      Num (sqrt 2 * cos (real i * (pi / 2)))"
    using t by blast
  from s [of 0] s [of 1] c [of 1] c [of 2] len m show ?thesis by simp
qed

subsection \<open>Polynomials as coefficient lists\<close>

lemma length_padd: "length (padd p q) = max (length p) (length q)"
  by (induction p q rule: padd.induct) simp_all

lemma peval_padd: "peval (padd p q) x = peval p x + peval q x"
  by (induction p q rule: padd.induct) (simp_all add: algebra_simps)

lemma peval_scale: "peval (map ((*) a) p) x = a * peval p x"
  by (induction p) (simp_all add: algebra_simps)

lemma peval_scale_right: "peval (map (\<lambda>c. c * a) p) x = peval p x * a"
  by (induction p) (simp_all add: algebra_simps)

lemma peval_pmul: "peval (pmul p q) x = peval p x * peval q x"
  by (induction p) (simp_all add: peval_padd peval_scale algebra_simps)

lemma peval_ppow: "peval (ppow p n) x = peval p x ^ n"
  by (induction n) (simp_all add: peval_pmul)

lemma length_pmul:
  "p \<noteq> [] \<Longrightarrow> q \<noteq> [] \<Longrightarrow> length (pmul p q) = length p + length q - 1"
proof (induction p)
  case Nil
  then show ?case by simp
next
  case (Cons a p)
  show ?case
  proof (cases "p = []")
    case True
    with Cons.prems show ?thesis by (cases q) (simp_all add: length_padd)
  next
    case False
    with Cons show ?thesis by (simp add: length_padd)
  qed
qed

lemma padd_Nil2: "padd p [] = p"
  by (cases p) simp_all

lemma last_padd_longer:
  "length p < length q \<Longrightarrow> last (padd p q) = last q"
proof (induction p q rule: padd.induct)
  case (3 a p b q)
  then show ?case by (cases "padd p q = []"; cases q) (auto simp: length_padd dest!: arg_cong [where f = length])
qed simp_all

lemma last_padd_equal:
  "length p = length q \<Longrightarrow> p \<noteq> [] \<Longrightarrow> last (padd p q) = last p + last q"
proof (induction p q rule: padd.induct)
  case (3 a p b q)
  then show ?case by (cases p; cases q) auto
qed simp_all

lemma last_pmul:
  "p \<noteq> [] \<Longrightarrow> q \<noteq> [] \<Longrightarrow> last (pmul p q) = last p * last q"
proof (induction p)
  case Nil
  then show ?case by simp
next
  case (Cons a p)
  show ?case
  proof (cases "p = []")
    case True
    show ?thesis
    proof (cases "length q = 1")
      case True
      then obtain b where "q = [b]" by (cases q) auto
      with \<open>p = []\<close> show ?thesis by simp
    next
      case False
      with Cons.prems have "length [0::real] < length (map ((*) a) q)" by (cases q) auto
      then have "last (padd [0] (map ((*) a) q)) = last (map ((*) a) q)"
        by (rule last_padd_longer)
      moreover have "padd (map ((*) a) q) [0] = padd [0] (map ((*) a) q)"
        using Cons.prems by (cases q) (simp_all add: padd_Nil2)
      ultimately show ?thesis using \<open>p = []\<close> Cons.prems by (simp add: last_map)
    qed
  next
    case False
    with Cons.prems have len: "length (pmul p q) = length p + length q - 1"
      by (simp add: length_pmul)
    with False Cons.prems have "length (map ((*) a) q) < length (0 # pmul p q)"
      by (cases p) auto
    then have "last (padd (map ((*) a) q) (0 # pmul p q)) = last (0 # pmul p q)"
      by (rule last_padd_longer)
    moreover from len False Cons.prems have "pmul p q \<noteq> []" by (cases p; cases q) auto
    ultimately show ?thesis using False Cons by simp
  qed
qed

lemma ppow_base_facts:
  "length (ppow [- 1, 0, 1] l) = 2 * l + 1 \<and> last (ppow [- 1, 0, 1] l) = 1"
proof (induction l)
  case 0
  show ?case by simp
next
  case (Suc l)
  then have ne: "ppow [- 1, 0, 1] l \<noteq> []" by auto
  have "length (pmul [- 1, 0, 1] (ppow [- 1, 0, 1] l)) = 3 + length (ppow [- 1, 0, 1] l) - 1"
    using length_pmul [OF _ ne, of "[- 1, 0, 1]"] by simp
  moreover have "last (pmul [- 1, 0, 1] (ppow [- 1, 0, 1] l)) = 1 * last (ppow [- 1, 0, 1] l)"
    using last_pmul [OF _ ne, of "[- 1, 0, 1]"] by simp
  ultimately show ?case using Suc by simp
qed

lemma length_pdiff_from: "length (pdiff_from k p) = length p"
  by (induction p arbitrary: k) simp_all

lemma length_pdiff: "length (pdiff p) = length p - 1"
  by (simp add: pdiff_def length_pdiff_from)

lemma last_pdiff_from:
  "p \<noteq> [] \<Longrightarrow> last (pdiff_from k p) = real (k + length p - 1) * last p"
proof (induction p arbitrary: k)
  case Nil
  then show ?case by simp
next
  case (Cons a p)
  show ?case
  proof (cases "p = []")
    case True
    then show ?thesis by simp
  next
    case False
    then have "pdiff_from (Suc k) p \<noteq> []"
      using length_pdiff_from [of "Suc k" p] by auto
    with False Cons.IH [OF False, of "Suc k"] show ?thesis by simp
  qed
qed

lemma last_pdiff:
  assumes "2 \<le> length p"
  shows "last (pdiff p) = real (length p - 1) * last p"
proof -
  from assms obtain a q where p: "p = a # q" by (cases p) auto
  with assms have q: "q \<noteq> []" by auto
  with p show ?thesis by (simp add: pdiff_def last_pdiff_from)
qed

lemma pdiff_iter_facts:
  "n < length p \<Longrightarrow> last p \<noteq> 0 \<Longrightarrow>
     length ((pdiff ^^ n) p) = length p - n \<and> last ((pdiff ^^ n) p) \<noteq> 0"
proof (induction n)
  case 0
  then show ?case by simp
next
  case (Suc n)
  then have ih: "length ((pdiff ^^ n) p) = length p - n" "last ((pdiff ^^ n) p) \<noteq> 0"
    by simp_all
  from Suc.prems ih have "2 \<le> length ((pdiff ^^ n) p)" by simp
  from last_pdiff [OF this] ih Suc.prems show ?case
    by (simp add: length_pdiff)
qed

lemma DERIV_peval_from:
  "0 < k \<Longrightarrow> ((\<lambda>x. x ^ k * peval p x) has_field_derivative
      x ^ (k - 1) * peval (pdiff_from k p) x) (at x)"
proof (induction p arbitrary: k)
  case Nil
  then show ?case by simp
next
  case (Cons a p)
  have "((\<lambda>x. a * x ^ k + x ^ Suc k * peval p x) has_field_derivative
      a * (real k * x ^ (k - 1)) + x ^ (Suc k - 1) * peval (pdiff_from (Suc k) p) x) (at x)"
    by (rule DERIV_add [OF _ Cons.IH]) (auto intro!: derivative_eq_intros)
  moreover have "(\<lambda>x. x ^ k * peval (a # p) x) = (\<lambda>x. a * x ^ k + x ^ Suc k * peval p x)"
    by (rule ext) (simp add: algebra_simps)
  moreover from Cons.prems have "x ^ k = x * x ^ (k - 1)"
    by (cases k) simp_all
  ultimately show ?case by (simp add: algebra_simps)
qed

lemma DERIV_peval: "(peval p has_field_derivative peval (pdiff p) x) (at x)"
proof (cases p)
  case Nil
  have "peval [] = (\<lambda>x. 0)" by (rule ext) simp
  with Nil show ?thesis by (simp add: pdiff_def)
next
  case (Cons a q)
  have "((\<lambda>x. a + x ^ 1 * peval q x) has_field_derivative
      0 + x ^ (1 - 1) * peval (pdiff_from 1 q) x) (at x)"
    by (rule DERIV_add [OF _ DERIV_peval_from]) simp_all
  moreover have "peval p = (\<lambda>x. a + x ^ 1 * peval q x)"
    by (rule ext) (simp add: Cons)
  ultimately show ?thesis by (simp add: Cons pdiff_def)
qed

subsection \<open>The derivative of Rodrigues' formula at \<open>z = 1\<close>\<close>

text \<open>
  The \<open>k\<close>-th derivative of \<open>(z\<^sup>2 - 1)\<^sup>l\<close> is \<open>(z\<^sup>2 - 1)\<^sup>l\<^sup>-\<^sup>k\<close> times a polynomial whose value
  at 1 is \<open>2\<^sup>k l! / (l - k)!\<close>; for \<open>k = l\<close> the value at 1 is \<open>2\<^sup>l l!\<close>.
\<close>

lemma peval_base: "peval [- 1, 0, 1] x = x\<^sup>2 - 1"
  by (simp add: power2_eq_square)

lemma rodrigues_factor:
  "k \<le> l \<Longrightarrow> \<exists>r. (\<forall>x. peval ((pdiff ^^ k) (ppow [- 1, 0, 1] l)) x = (x\<^sup>2 - 1) ^ (l - k) * peval r x)
      \<and> peval r 1 * fact (l - k) = 2 ^ k * fact l"
proof (induction k)
  case 0
  have "(\<forall>x. peval ((pdiff ^^ 0) (ppow [- 1, 0, 1] l)) x = (x\<^sup>2 - 1) ^ (l - 0) * peval [1] x)
      \<and> peval [1] 1 * fact (l - 0) = 2 ^ 0 * fact l"
    by (simp add: peval_ppow power2_eq_square)
  then show ?case by blast
next
  case (Suc k)
  then obtain r where r: "\<And>x. peval ((pdiff ^^ k) (ppow [- 1, 0, 1] l)) x = (x\<^sup>2 - 1) ^ (l - k) * peval r x"
    and r1: "peval r 1 * fact (l - k) = 2 ^ k * fact l"
    by auto
  define P where "P = (pdiff ^^ k) (ppow [- 1, 0, 1] l)"
  define n where "n = l - Suc k"
  from Suc.prems have lk: "l - k = Suc n" by (simp add: n_def)
  define r' where "r' = padd (pmul [0, 2 * real (Suc n)] r) (pmul [- 1, 0, 1] (pdiff r))"
  have eq: "peval P = (\<lambda>x. (x\<^sup>2 - 1) ^ Suc n * peval r x)"
    by (rule ext) (simp add: P_def r lk)
  have step: "peval (pdiff P) x = (x\<^sup>2 - 1) ^ n * peval r' x" for x
  proof -
    have d1: "((\<lambda>x. (x\<^sup>2 - 1) ^ Suc n * peval r x) has_field_derivative peval (pdiff P) x) (at x)"
      using DERIV_peval [of P x] by (simp only: eq)
    have du: "((\<lambda>x. x\<^sup>2 - 1) has_field_derivative 2 * x) (at x)"
      by (auto intro!: derivative_eq_intros)
    have dp: "((\<lambda>x. (x\<^sup>2 - 1) ^ Suc n) has_field_derivative
        real (Suc n) * (x\<^sup>2 - 1) ^ n * (2 * x)) (at x)"
      using DERIV_power [OF du, of "Suc n"] by (simp only: diff_Suc_Suc diff_zero mult_ac)
    have d2: "((\<lambda>x. (x\<^sup>2 - 1) ^ Suc n * peval r x) has_field_derivative
        (real (Suc n) * (x\<^sup>2 - 1) ^ n * (2 * x)) * peval r x
          + (x\<^sup>2 - 1) ^ Suc n * peval (pdiff r) x) (at x)"
      using DERIV_mult [OF dp DERIV_peval [of r x]] by (simp only: mult_ac)
    have "peval (pdiff P) x = (real (Suc n) * (x\<^sup>2 - 1) ^ n * (2 * x)) * peval r x
          + (x\<^sup>2 - 1) ^ Suc n * peval (pdiff r) x"
      by (rule DERIV_unique [OF d1 d2])
    also have "\<dots> = (x\<^sup>2 - 1) ^ n * peval r' x"
    proof -
      have e1: "peval [0, 2 * real (Suc n)] x = 2 * real (Suc n) * x" by simp
      have pr: "peval r' x = 2 * real (Suc n) * x * peval r x + (x\<^sup>2 - 1) * peval (pdiff r) x"
        by (simp only: r'_def peval_padd peval_pmul e1 peval_base)
      show ?thesis unfolding pr by (simp add: algebra_simps)
    qed
    finally show ?thesis .
  qed
  have "peval r' 1 = 2 * real (Suc n) * peval r 1"
  proof -
    have e1: "peval [0, 2 * real (Suc n)] 1 = 2 * real (Suc n)" by simp
    have e2: "peval [- 1, 0, 1] 1 = 0" by simp
    show ?thesis by (simp only: r'_def peval_padd peval_pmul e1 e2)
  qed
  then have "peval r' 1 * fact n = 2 * (peval r 1 * fact (Suc n))"
    by simp
  with r1 lk have "peval r' 1 * fact (l - Suc k) = 2 ^ Suc k * fact l"
    by (simp add: n_def)
  moreover have "\<forall>x. peval ((pdiff ^^ Suc k) (ppow [- 1, 0, 1] l)) x = (x\<^sup>2 - 1) ^ (l - Suc k) * peval r' x"
    using step by (simp add: P_def n_def)
  ultimately show ?case by blast
qed

lemma rodrigues_at_one:
  "peval ((pdiff ^^ l) (ppow [- 1, 0, 1] l)) 1 = 2 ^ l * fact l"
proof -
  from rodrigues_factor [of l l] obtain r where
    "\<And>x. peval ((pdiff ^^ l) (ppow [- 1, 0, 1] l)) x = (x\<^sup>2 - 1) ^ (l - l) * peval r x"
    and "peval r 1 * fact (l - l) = 2 ^ l * fact l" by auto
  then show ?thesis by simp
qed

subsection \<open>The coefficient table of a degree\<close>

lemma zero_plus_tfloat: "(0::tfloat) + x = x"
  by (cases x) (simp_all add: zero_tfloat_def)

lemma legendre_norm_nonzero: "legendre_norm l m \<noteq> 0"
  by (simp add: legendre_norm_def)

lemma sympy_legendre_Some:
  "m \<le> l \<Longrightarrow> sympy_legendre l (int m) =
     Some (map (\<lambda>c. c * legendre_norm l m)
            (map ((*) (1 / (2 ^ l * fact l))) ((pdiff ^^ (l + m)) (ppow [- 1, 0, 1] l))), m)"
  by (simp add: sympy_legendre_def Let_def)

lemma sympy_legendre_facts:
  assumes "m \<le> l"
  shows "\<exists>p. sympy_legendre l (int m) = Some (p, m) \<and> length p = l - m + 1 \<and> last p \<noteq> 0 \<and>
    (\<forall>x. peval p x =
       peval ((pdiff ^^ (l + m)) (ppow [- 1, 0, 1] l)) x / (2 ^ l * fact l) * legendre_norm l m)"
proof -
  define D where "D = (pdiff ^^ (l + m)) (ppow [- 1, 0, 1] l)"
  define p where "p = map (\<lambda>c. c * legendre_norm l m) (map ((*) (1 / (2 ^ l * fact l))) D)"
  from assms have "l + m < length (ppow [- 1, 0, 1] l)" "last (ppow [- 1, 0, 1] l) \<noteq> 0"
    using ppow_base_facts [of l] by simp_all
  from pdiff_iter_facts [OF this] assms
  have D: "length D = l - m + 1" "last D \<noteq> 0"
    using ppow_base_facts [of l] by (simp_all add: D_def)
  then have "D \<noteq> []" by auto
  then have "last p = last D * (1 / (2 ^ l * fact l)) * legendre_norm l m"
    by (simp add: p_def last_map)
  with D have "last p \<noteq> 0" by (simp add: legendre_norm_nonzero)
  moreover have "length p = l - m + 1" using D by (simp add: p_def)
  moreover have "sympy_legendre l (int m) = Some (p, m)"
    using assms by (simp add: sympy_legendre_Some p_def D_def)
  moreover have "peval p x = peval D x / (2 ^ l * fact l) * legendre_norm l m" for x
    by (simp only: p_def peval_scale peval_scale_right) simp
  ultimately show ?thesis unfolding D_def by blast
qed

lemma poly_legendre_loop_closed:
  "\<forall>m\<in>set ms. m \<le> l \<Longrightarrow>
     poly_legendre_loop l ms = Inr (map (\<lambda>m. as_terms (the (sympy_legendre l (int m)))) ms)"
proof (induction ms)
  case Nil
  show ?case by simp
next
  case (Cons m ms)
  then have "m \<le> l" by simp
  from sympy_legendre_facts [OF this] obtain p where "sympy_legendre l (int m) = Some (p, m)"
    by blast
  with Cons show ?case by simp
qed

lemma poly_legendre_closed:
  "poly_legendre (int l) = Inr (map (\<lambda>m. as_terms (the (sympy_legendre l (int m)))) [0..<l + 1])"
  using poly_legendre_loop_closed [of "[0..<l + 1]" l]
  by (simp add: poly_legendre_def nat_add_distrib del: upt_Suc)

lemma poly_legendre_length:
  "poly_legendre (int l) = Inr T \<Longrightarrow> length T = l + 1"
  by (simp add: poly_legendre_closed del: upt_Suc) auto

lemma as_terms_nonempty:
  assumes "p \<noteq> []" "last p \<noteq> 0"
  shows "as_terms (p, m) \<noteq> []"
proof -
  from assms have "length p - 1 \<in> set [0..<length p] \<and> p ! (length p - 1) \<noteq> 0"
    by (simp add: last_conv_nth)
  then have "\<exists>k\<in>set [0..<length p]. p ! k \<noteq> 0" by blast
  then show ?thesis by (simp add: as_terms_def filter_empty_conv)
qed

lemma as_terms_range:
  "(c, nz, ny) \<in> set (as_terms (p, m)) \<Longrightarrow> nz < length p \<and> ny = m \<and> c = p ! nz \<and> c \<noteq> 0"
  by (auto simp: as_terms_def)

lemma poly_legendre_entry:
  assumes "poly_legendre (int l) = Inr T" "m \<le> l"
  shows "\<exists>p. T ! m = as_terms (p, m) \<and> length p = l - m + 1 \<and> last p \<noteq> 0 \<and>
    (\<forall>x. peval p x =
       peval ((pdiff ^^ (l + m)) (ppow [- 1, 0, 1] l)) x / (2 ^ l * fact l) * legendre_norm l m)"
proof -
  from sympy_legendre_facts [OF assms(2)] obtain p where p: "sympy_legendre l (int m) = Some (p, m)"
    "length p = l - m + 1" "last p \<noteq> 0"
    "\<forall>x. peval p x = peval ((pdiff ^^ (l + m)) (ppow [- 1, 0, 1] l)) x / (2 ^ l * fact l) * legendre_norm l m"
    by blast
  from assms have "T ! m = as_terms (the (sympy_legendre l (int m)))"
    by (simp add: poly_legendre_closed del: upt_Suc) (auto simp del: upt_Suc)
  with p show ?thesis by auto
qed

subsection \<open>The loops of \<open>_legendre_eval_polys\<close>\<close>

lemma eval_terms_closed:
  "\<forall>t\<in>set ts. fst (snd t) < length pwz \<and> snd (snd t) < length pwy \<Longrightarrow>
   eval_terms ts pwz pwy val =
     Inr (foldl (\<lambda>acc t. acc + Num (fst t) * pwz ! fst (snd t) * pwy ! snd (snd t)) val ts)"
  by (induction ts arbitrary: val) auto

lemma eval_terms_powers:
  assumes "\<forall>t\<in>set ts. fst (snd t) \<le> n \<and> snd (snd t) \<le> n"
  shows "eval_terms ts (map (\<lambda>m. z ^ m) [0..<n + 1]) (map (\<lambda>m. y ^ m) [0..<n + 1]) val =
     Inr (foldl (\<lambda>acc t. acc + term_val t z y) val ts)"
proof -
  have "foldl (\<lambda>acc t. acc + Num (fst t) * map (\<lambda>m. z ^ m) [0..<n + 1] ! fst (snd t)
                 * map (\<lambda>m. y ^ m) [0..<n + 1] ! snd (snd t)) val ts
      = foldl (\<lambda>acc t. acc + term_val t z y) val ts"
    using assms
  proof (induction ts arbitrary: val)
    case Nil
    show ?case by simp
  next
    case (Cons t ts)
    then have "fst (snd t) < n + 1" "snd (snd t) < n + 1" by auto
    then have "map (\<lambda>m. z ^ m) [0..<n + 1] ! fst (snd t) = z ^ fst (snd t)"
      "map (\<lambda>m. y ^ m) [0..<n + 1] ! snd (snd t) = y ^ snd (snd t)"
      by (simp_all del: upt_Suc)
    with Cons show ?case by (simp add: term_val_def case_prod_beta del: upt_Suc)
  qed
  moreover have "eval_terms ts (map (\<lambda>m. z ^ m) [0..<n + 1]) (map (\<lambda>m. y ^ m) [0..<n + 1]) val =
     Inr (foldl (\<lambda>acc t. acc + Num (fst t) * map (\<lambda>m. z ^ m) [0..<n + 1] ! fst (snd t)
                 * map (\<lambda>m. y ^ m) [0..<n + 1] ! snd (snd t)) val ts)"
    using assms by (intro eval_terms_closed) (auto simp del: upt_Suc)
  ultimately show ?thesis by simp
qed

lemma legendre_eval_loop_struct:
  "legendre_eval_loop m polys pwz pwy p = Inr r \<Longrightarrow> 0 < m \<Longrightarrow>
     \<exists>vs. length vs = length polys \<and>
          (\<forall>k<length polys. eval_terms (polys ! k) pwz pwy 0 = Inr (vs ! k)) \<and>
          r = rev vs @ p @ vs"
proof (induction polys arbitrary: m p)
  case Nil
  then show ?case by simp
next
  case (Cons poly polys)
  from Cons.prems obtain val where val: "eval_terms poly pwz pwy 0 = Inr val"
    and rest: "legendre_eval_loop (Suc m) polys pwz pwy ([val] @ p @ [val]) = Inr r"
    by (auto split: if_splits sum.splits)
  from Cons.IH [OF rest] obtain vs where vs: "length vs = length polys"
    "\<forall>k<length polys. eval_terms (polys ! k) pwz pwy 0 = Inr (vs ! k)"
    "r = rev vs @ ([val] @ p @ [val]) @ vs" by auto
  have "\<forall>k<length (poly # polys). eval_terms ((poly # polys) ! k) pwz pwy 0 = Inr ((val # vs) ! k)"
    using val vs(2) by (auto simp: nth_Cons split: nat.splits)
  moreover have "r = rev (val # vs) @ p @ (val # vs)" using vs(3) by simp
  moreover have "length (val # vs) = length (poly # polys)" using vs(1) by simp
  ultimately show ?case by blast
qed

lemma legendre_eval_polys_struct:
  assumes "legendre_eval_polys polys pwz pwy = Inr blk"
  shows "\<exists>ws. length ws = length polys \<and> ws \<noteq> [] \<and>
          (\<forall>k<length polys. eval_terms (polys ! k) pwz pwy 0 = Inr (ws ! k)) \<and>
          blk = rev (tl ws) @ ws"
proof (cases polys)
  case Nil
  with assms show ?thesis by (simp add: legendre_eval_polys_def)
next
  case (Cons poly rest)
  with assms obtain val where val: "eval_terms poly pwz pwy 0 = Inr val"
    and rest: "legendre_eval_loop (Suc 0) rest pwz pwy [val] = Inr blk"
    by (auto simp: legendre_eval_polys_def split: if_splits sum.splits)
  from legendre_eval_loop_struct [OF rest] obtain vs where vs: "length vs = length rest"
    "\<forall>k<length rest. eval_terms (rest ! k) pwz pwy 0 = Inr (vs ! k)"
    "blk = rev vs @ [val] @ vs" by auto
  have "\<forall>k<length polys. eval_terms (polys ! k) pwz pwy 0 = Inr ((val # vs) ! k)"
    using val vs(2) Cons by (auto simp: nth_Cons split: nat.splits)
  moreover have "blk = rev (tl (val # vs)) @ (val # vs)" using vs(3) by simp
  moreover have "length (val # vs) = length polys" using vs(1) Cons by simp
  ultimately show ?thesis by blast
qed

lemma mirrored_block_nth:
  assumes "length ws = l + 1"
  shows "length (rev (tl ws) @ ws) = 2 * l + 1"
    and "m \<le> l \<Longrightarrow> (rev (tl ws) @ ws) ! (l + m) = ws ! m"
    and "m \<le> l \<Longrightarrow> (rev (tl ws) @ ws) ! (l - m) = ws ! m"
proof -
  from assms obtain v vs where ws: "ws = v # vs" and vs: "length vs = l" by (cases ws) auto
  show "length (rev (tl ws) @ ws) = 2 * l + 1" using ws vs by simp
  show "(rev (tl ws) @ ws) ! (l + m) = ws ! m" if "m \<le> l"
    using ws vs by (simp add: nth_append)
  show "(rev (tl ws) @ ws) ! (l - m) = ws ! m" if "m \<le> l"
  proof (cases m)
    case 0
    then show ?thesis using ws vs by (simp add: nth_append)
  next
    case (Suc j)
    with that vs have "l - m < length vs" "length vs - Suc (l - m) = j" by auto
    then show ?thesis using ws Suc by (simp add: nth_append rev_nth)
  qed
qed

lemma legendre_eval_loop_closed:
  "0 < m \<Longrightarrow> pwz \<noteq> [] \<Longrightarrow> \<forall>poly\<in>set polys. eval_terms poly pwz pwy 0 = Inr (f poly) \<Longrightarrow>
     legendre_eval_loop m polys pwz pwy p = Inr (rev (map f polys) @ p @ map f polys)"
  by (induction polys arbitrary: m p) simp_all

lemma legendre_eval_polys_closed:
  assumes "polys \<noteq> []" "pwz \<noteq> []" "\<forall>poly\<in>set polys. eval_terms poly pwz pwy 0 = Inr (f poly)"
  shows "legendre_eval_polys polys pwz pwy = Inr (rev (map f (tl polys)) @ map f polys)"
proof -
  from assms(1) obtain poly rest where polys: "polys = poly # rest" by (cases polys) auto
  with assms have "legendre_eval_loop (Suc 0) rest pwz pwy [f poly] =
      Inr (rev (map f rest) @ [f poly] @ map f rest)"
    by (intro legendre_eval_loop_closed) auto
  with assms polys show ?thesis by (simp add: legendre_eval_polys_def)
qed


text \<open>
  Whatever block \<open>_legendre_eval_polys\<close> returns for the table of a degree, it is mirrored
  around its centre.
\<close>

lemma legendre_block_struct:
  assumes "poly_legendre (int l) = Inr polys"
    and "legendre_eval_polys polys pwz pwy = Inr blk"
  shows "length blk = 2 * l + 1 \<and>
    (\<forall>m. 1 \<le> m \<and> m \<le> l \<longrightarrow> blk ! (l - m) = blk ! (l + m)) \<and>
    (\<forall>m\<le>l. eval_terms (polys ! m) pwz pwy 0 = Inr (blk ! (l + m)))"
proof -
  from assms(1) have len: "length polys = l + 1" by (rule poly_legendre_length)
  from legendre_eval_polys_struct [OF assms(2)] len obtain ws where ws: "length ws = l + 1"
    "\<forall>k<l + 1. eval_terms (polys ! k) pwz pwy 0 = Inr (ws ! k)" "blk = rev (tl ws) @ ws"
    by auto
  note nth = mirrored_block_nth [OF ws(1)]
  have "length blk = 2 * l + 1" unfolding ws(3) by (rule nth(1))
  moreover have "blk ! (l - m) = blk ! (l + m)" if "m \<le> l" for m
    unfolding ws(3) using nth(2) [OF that] nth(3) [OF that] by simp
  moreover have "eval_terms (polys ! m) pwz pwy 0 = Inr (blk ! (l + m))" if "m \<le> l" for m
    unfolding ws(3) using nth(2) [OF that] ws(2) that by simp
  ultimately show ?thesis by blast
qed

subsection \<open>Running the generated program\<close>

lemma upto_mirror:
  "map (\<lambda>m. g (nat \<bar>m\<bar>)) [- int l..int l] = rev (map g [1..<l + 1]) @ map g [0..<l + 1]"
proof (induction l)
  case 0
  show ?case by simp
next
  case (Suc l)
  have "[- int (Suc l)..int (Suc l)] = - int (Suc l) # [- int l..int l] @ [int (Suc l)]"
    using upto_rec1 [of "- int (Suc l)" "int (Suc l)"] upto_rec2 [of "- int l" "int (Suc l)"]
    by simp
  then have "map (\<lambda>m. g (nat \<bar>m\<bar>)) [- int (Suc l)..int (Suc l)] =
      g (Suc l) # map (\<lambda>m. g (nat \<bar>m\<bar>)) [- int l..int l] @ [g (Suc l)]"
    by (simp add: nat_add_distrib)
  also have "\<dots> = g (Suc l) # (rev (map g [1..<l + 1]) @ map g [0..<l + 1]) @ [g (Suc l)]"
    by (simp only: Suc.IH)
  also have "\<dots> = rev (map g [1..<Suc l + 1]) @ map g [0..<Suc l + 1]"
    by simp
  finally show ?case .
qed

lemma formula_val_foldl:
  "f \<noteq> [] \<Longrightarrow> formula_val f z y = Inr (foldl (\<lambda>acc t. acc + term_val t z y) 0 f)"
  by (cases f) (simp_all add: zero_plus_tfloat)

lemma exec_ll_m_closed:
  assumes "\<forall>a\<in>set asg. snd a = F (fst a) \<and> snd a \<noteq> []"
  shows "\<exists>env'. exec_ll_m asg env z y = Inr env' \<and>
     (\<forall>v. env' v = (if v \<in> fst ` set asg
                    then Some (foldl (\<lambda>acc t. acc + term_val t z y) 0 (F v)) else env v))"
  using assms
proof (induction asg arbitrary: env)
  case Nil
  show ?case by simp
next
  case (Cons a asg)
  obtain v f where a: "a = (v, f)" by (cases a)
  with Cons.prems have f: "f = F v" "f \<noteq> []" by auto
  from Cons.prems have "\<forall>a\<in>set asg. snd a = F (fst a) \<and> snd a \<noteq> []" by auto
  from Cons.IH [OF this, of "env(v \<mapsto> foldl (\<lambda>acc t. acc + term_val t z y) 0 f)"]
  obtain env' where env': "exec_ll_m asg (env(v \<mapsto> foldl (\<lambda>acc t. acc + term_val t z y) 0 f)) z y = Inr env'"
    "\<forall>w. env' w = (if w \<in> fst ` set asg
                    then Some (foldl (\<lambda>acc t. acc + term_val t z y) 0 (F w))
                    else (env(v \<mapsto> foldl (\<lambda>acc t. acc + term_val t z y) 0 f)) w)"
    by blast
  have "exec_ll_m (a # asg) env z y = Inr env'"
    using env'(1) f(2) by (simp add: a formula_val_foldl)
  moreover have "\<forall>w. env' w = (if w \<in> fst ` set (a # asg)
                    then Some (foldl (\<lambda>acc t. acc + term_val t z y) 0 (F w)) else env w)"
    using env'(2) f(1) by (auto simp: a)
  ultimately show ?case by blast
qed

lemma stack_vars_closed:
  "\<forall>v\<in>set vs. env v = Some (g v) \<Longrightarrow> stack_vars vs env = Inr (map g vs)"
  by (induction vs) simp_all

subsection \<open>The generic path in closed form\<close>

lemma jit_code_loop_closed:
  "jit_code_loop ls ll_m shb =
     Inr (ll_m @ concat (map (\<lambda>l. map (\<lambda>(m, p). ((l, m), p))
              (enumerate 0 (map (\<lambda>m. as_terms (the (sympy_legendre l (int m)))) [0..<l + 1]))) ls),
          shb @ concat (map (\<lambda>l. map (\<lambda>m. (l, nat \<bar>m\<bar>)) [- int l..int l]) ls))"
  by (induction ls arbitrary: ll_m shb) (simp_all add: poly_legendre_closed del: upt_Suc)

lemma table_terms_in_range:
  assumes "m \<le> l" "t \<in> set (as_terms (the (sympy_legendre l (int m))))"
  shows "fst (snd t) \<le> l \<and> snd (snd t) \<le> l"
proof -
  from sympy_legendre_facts [OF assms(1)] obtain p where p: "sympy_legendre l (int m) = Some (p, m)"
    "length p = l - m + 1" by blast
  obtain c nz ny where t: "t = (c, nz, ny)" by (cases t)
  with assms(2) p have "nz < length p \<and> ny = m" using as_terms_range [of c nz ny p m] by simp
  with p assms(1) t show ?thesis by auto
qed

lemma table_terms_nonempty:
  assumes "m \<le> l"
  shows "as_terms (the (sympy_legendre l (int m))) \<noteq> []"
proof -
  from sympy_legendre_facts [OF assms(1)] obtain p where p: "sympy_legendre l (int m) = Some (p, m)"
    "length p = l - m + 1" "last p \<noteq> 0" by blast
  then have "p \<noteq> []" by auto
  with p show ?thesis by (simp add: as_terms_nonempty)
qed

lemma poly_legendre_table: "poly_legendre (int l) = Inr (legendre_table l)"
  by (simp only: legendre_table_def poly_legendre_closed)

lemma length_legendre_table: "length (legendre_table l) = l + 1"
  by (simp add: legendre_table_def del: upt_Suc)

lemma legendre_table_nth:
  "m \<le> l \<Longrightarrow> legendre_table l ! m = as_terms (the (sympy_legendre l (int m)))"
  by (simp add: legendre_table_def del: upt_Suc)

lemma legendre_table_entries:
  assumes "f \<in> set (legendre_table l)"
  shows "f \<noteq> [] \<and> (\<forall>t\<in>set f. fst (snd t) \<le> l \<and> snd (snd t) \<le> l)"
proof -
  from assms obtain m where "m < l + 1" "f = as_terms (the (sympy_legendre l (int m)))"
    unfolding legendre_table_def by (auto simp del: upt_Suc)
  then have "m \<le> l" "f = as_terms (the (sympy_legendre l (int m)))" by simp_all
  then show ?thesis
    using table_terms_nonempty [of m l] table_terms_in_range [of m l] by simp
qed

lemma length_beta_block: "length (beta_block z y l) = 2 * l + 1"
  by (simp add: beta_block_def length_legendre_table)

lemma eval_terms_table:
  assumes "f \<in> set (legendre_table l)" "l \<le> n"
  shows "eval_terms f (powers z n) (powers y n) 0 = Inr (poly_val z y f)"
proof -
  from legendre_table_entries [OF assms(1)] assms(2)
  have "\<forall>t\<in>set f. fst (snd t) \<le> n \<and> snd (snd t) \<le> n" by fastforce
  then show ?thesis unfolding powers_def poly_val_def by (rule eval_terms_powers)
qed

lemma legendre_eval_polys_table:
  assumes "l \<le> n"
  shows "legendre_eval_polys (legendre_table l) (powers z n) (powers y n) = Inr (beta_block z y l)"
proof -
  have "legendre_table l \<noteq> []" using length_legendre_table [of l] by auto
  moreover have "powers z n \<noteq> []" by (simp add: powers_def del: upt_Suc)
  moreover have "\<forall>f\<in>set (legendre_table l).
      eval_terms f (powers z n) (powers y n) 0 = Inr (poly_val z y f)"
    using eval_terms_table assms by blast
  ultimately show ?thesis unfolding beta_block_def by (rule legendre_eval_polys_closed)
qed

lemma legendre_loop_closed:
  "\<forall>l\<in>set ls. l \<le> n \<Longrightarrow>
     legendre_loop ls (powers z n) (powers y n) = Inr (map (beta_block z y) ls)"
proof (induction ls)
  case Nil
  show ?case by simp
next
  case (Cons l ls)
  then have l: "l \<le> n" and ih: "legendre_loop ls (powers z n) (powers y n) = Inr (map (beta_block z y) ls)"
    by simp_all
  show ?case
    by (simp only: legendre_loop.simps poly_legendre_table legendre_eval_polys_table [OF l] ih
        sum.case list.map)
qed

lemma legendre_closed:
  assumes "ls \<noteq> []"
  shows "legendre ls z (Some y) = Inr (concat (map (beta_block z y) ls))"
proof -
  have "\<forall>l\<in>set ls. l \<le> Max (set ls)" by simp
  from legendre_loop_closed [OF this] assms show ?thesis
    by (simp add: legendre_def powers_def del: upt_Suc)
qed

lemma cpu_closed:
  assumes "ls \<noteq> []"
  shows "spherical_harmonics_alpha_z_y_cpu ls alpha z y =
     mul_m_lm ls (spherical_harmonics_alpha (Max (set ls)) alpha) (concat (map (beta_block z y) ls))"
  using assms
  by (simp add: spherical_harmonics_alpha_z_y_cpu_def spherical_harmonics_beta_def legendre_closed)

subsection \<open>The block of a degree\<close>

text \<open>
  Claim C6. For every degree \<open>l\<close> and all inputs \<open>z\<close>, \<open>y\<close> (NaN included), and for the
  power tables \<open>[z**k for k in range(n + 1)]\<close>, \<open>[y**k for k in range(n + 1)]\<close> of any
  \<open>n \<ge> l\<close> (\<open>legendre\<close> builds them with \<open>n = max(ls)\<close>): \<open>poly_legendre\<close> returns a
  table \<open>polys\<close>, \<open>_legendre_eval_polys\<close> returns a block \<open>blk\<close> for it, and \<open>legendre\<close>
  called with the degree \<open>l\<close> alone returns that block. The block has \<open>2 l + 1\<close> entries;
  for every order \<open>m\<close> with \<open>1 \<le> m \<le> l\<close> the entries at the positions \<open>l - m\<close> and
  \<open>l + m\<close> are equal; and the block is ordered by ascending order: the position \<open>l + m\<close>
  (and so \<open>l - m\<close>) holds the value of the polynomial of the order \<open>m\<close>, that is the value
  the inner loop accumulates for \<open>polys[m]\<close>.
\<close>

theorem legendre_block_mirror:
  assumes "l \<le> n"
  shows "\<exists>polys blk.
      poly_legendre (int l) = Inr polys \<and>
      legendre_eval_polys polys (map (\<lambda>k. z ^ k) [0..<n + 1]) (map (\<lambda>k. y ^ k) [0..<n + 1]) =
        Inr blk \<and>
      legendre [l] z (Some y) = Inr blk \<and>
      length blk = 2 * l + 1 \<and>
      (\<forall>m. 1 \<le> m \<and> m \<le> l \<longrightarrow> blk ! (l - m) = blk ! (l + m)) \<and>
      (\<forall>m\<le>l. eval_terms (polys ! m) (map (\<lambda>k. z ^ k) [0..<n + 1])
                 (map (\<lambda>k. y ^ k) [0..<n + 1]) 0 = Inr (blk ! (l + m)))"
proof -
  have t: "poly_legendre (int l) = Inr (legendre_table l)" by (rule poly_legendre_table)
  have b: "legendre_eval_polys (legendre_table l) (powers z n) (powers y n) =
      Inr (beta_block z y l)"
    using assms by (rule legendre_eval_polys_table)
  have c: "legendre [l] z (Some y) = Inr (beta_block z y l)"
    using legendre_closed [of "[l]" z y] by simp
  from legendre_block_struct [OF t b] t b c show ?thesis
    unfolding powers_def by blast
qed

theorem legendre_block_mirror_witness:
  "(1::nat) \<le> 1 \<and>
   poly_legendre (int 1) =
     Inr [[(- sqrt (3 / (4 * pi)), 1, 0)], [(- sqrt (3 / (4 * pi) / 2), 0, 1)]] \<and>
   legendre_eval_polys [[(- sqrt (3 / (4 * pi)), 1, 0)], [(- sqrt (3 / (4 * pi) / 2), 0, 1)]]
       (map (\<lambda>k. Num (1 / 2) ^ k) [0..<1 + 1]) (map (\<lambda>k. Num (1 / 3) ^ k) [0..<1 + 1]) =
     Inr [Num (- (sqrt (3 / (8 * pi)) / 3)), Num (- (sqrt (3 / (4 * pi)) / 2)),
          Num (- (sqrt (3 / (8 * pi)) / 3))] \<and>
   legendre [1] (Num (1 / 2)) (Some (Num (1 / 3))) =
     Inr [Num (- (sqrt (3 / (8 * pi)) / 3)), Num (- (sqrt (3 / (4 * pi)) / 2)),
          Num (- (sqrt (3 / (8 * pi)) / 3))] \<and>
   length [Num (- (sqrt (3 / (8 * pi)) / 3)), Num (- (sqrt (3 / (4 * pi)) / 2)),
          Num (- (sqrt (3 / (8 * pi)) / 3))] = 2 * 1 + 1 \<and>
   [Num (- (sqrt (3 / (8 * pi)) / 3)), Num (- (sqrt (3 / (4 * pi)) / 2)),
          Num (- (sqrt (3 / (8 * pi)) / 3))] ! (1 - 1) =
   [Num (- (sqrt (3 / (8 * pi)) / 3)), Num (- (sqrt (3 / (4 * pi)) / 2)),
          Num (- (sqrt (3 / (8 * pi)) / 3))] ! (1 + 1)"
proof -
  have a: "poly_legendre (int 1) =
     Inr [[(- sqrt (3 / (4 * pi)), 1, 0)], [(- sqrt (3 / (4 * pi) / 2), 0, 1)]]"
    by (simp add: poly_legendre_def sympy_legendre_def as_terms_def pdiff_def
        legendre_norm_def numeral_2_eq_2 Let_def)
  have p: "map (\<lambda>k. Num (1 / 2) ^ k) [0..<1 + 1] = [Num 1, Num (1 / 2)]"
    "map (\<lambda>k. Num (1 / 3) ^ k) [0..<1 + 1] = [Num 1, Num (1 / 3)]"
    by (simp_all add: one_tfloat_def)
  have b: "legendre_eval_polys
       [[(- sqrt (3 / (4 * pi)), 1, 0)], [(- sqrt (3 / (4 * pi) / 2), 0, 1)]]
       (map (\<lambda>k. Num (1 / 2) ^ k) [0..<1 + 1]) (map (\<lambda>k. Num (1 / 3) ^ k) [0..<1 + 1]) =
     Inr [Num (- (sqrt (3 / (8 * pi)) / 3)), Num (- (sqrt (3 / (4 * pi)) / 2)),
          Num (- (sqrt (3 / (8 * pi)) / 3))]"
    unfolding p by (simp add: legendre_eval_polys_def zero_tfloat_def)
  have le: "(1::nat) \<le> 1" by simp
  from legendre_block_mirror [OF le, of "Num (1 / 2)" "Num (1 / 3)"] obtain polys blk where
    r: "poly_legendre (int 1) = Inr polys"
      "legendre_eval_polys polys (map (\<lambda>k. Num (1 / 2) ^ k) [0..<1 + 1])
         (map (\<lambda>k. Num (1 / 3) ^ k) [0..<1 + 1]) = Inr blk"
      "legendre [1] (Num (1 / 2)) (Some (Num (1 / 3))) = Inr blk"
      "length blk = 2 * 1 + 1"
      "\<forall>m. 1 \<le> m \<and> m \<le> 1 \<longrightarrow> blk ! (1 - m) = blk ! (1 + m)"
    by blast
  from r(1) a have polys: "polys = [[(- sqrt (3 / (4 * pi)), 1, 0)], [(- sqrt (3 / (4 * pi) / 2), 0, 1)]]"
    by simp
  from r(2) b have blk: "blk = [Num (- (sqrt (3 / (8 * pi)) / 3)), Num (- (sqrt (3 / (4 * pi)) / 2)),
          Num (- (sqrt (3 / (8 * pi)) / 3))]"
    unfolding polys by simp
  from r(5) have m: "blk ! (1 - 1) = blk ! (1 + 1)" by blast
  show ?thesis
    using a b r(3) r(4) m unfolding blk by simp
qed

subsection \<open>The specialised kernel in closed form\<close>

lemma jit_code_loop_of:
  "jit_code_loop ls ll_m shb = Inr (ll_m @ concat (map ll_m_of ls), shb @ concat (map shb_of ls))"
  unfolding ll_m_of_def shb_of_def legendre_table_def by (rule jit_code_loop_closed)

lemma set_ll_m_of:
  "set (ll_m_of l) = {((l, m), legendre_table l ! m) | m. m \<le> l}"
proof -
  have "set (enumerate 0 (legendre_table l)) = {(m, legendre_table l ! m) | m. m \<le> l}"
    by (auto simp: in_set_enumerate_eq length_legendre_table)
  then show ?thesis unfolding ll_m_of_def by (auto simp: image_iff)
qed

lemma set_shb_of: "set (shb_of l) = {(l, m) | m. m \<le> l}"
proof -
  have "set (shb_of l) = set (map (\<lambda>m. (l, m)) [1..<l + 1]) \<union> set (map (\<lambda>m. (l, m)) [0..<l + 1])"
    unfolding shb_of_def upto_mirror [of "\<lambda>m. (l, m)" l] by simp
  also have "\<dots> = {(l, m) | m. m \<le> l}" by (auto simp del: upt_Suc)
  finally show ?thesis .
qed

lemma assigned_vars:
  "fst ` set (concat (map ll_m_of ls)) = {(l, m) | l m. l \<in> set ls \<and> m \<le> l}"
  by (auto simp: set_ll_m_of image_iff)

lemma stacked_vars:
  "set (concat (map shb_of ls)) = {(l, m) | l m. l \<in> set ls \<and> m \<le> l}"
  by (auto simp: set_shb_of)

lemma assigned_formulas:
  assumes "a \<in> set (concat (map ll_m_of ls))"
  shows "snd a = legendre_table (fst (fst a)) ! snd (fst a) \<and> snd a \<noteq> []"
proof -
  from assms obtain l m where lm: "l \<in> set ls" "m \<le> l" "a = ((l, m), legendre_table l ! m)"
    by (auto simp: set_ll_m_of)
  then have "legendre_table l ! m \<in> set (legendre_table l)"
    by (simp add: length_legendre_table)
  from legendre_table_entries [OF this] lm show ?thesis by simp
qed

lemma build_closed:
  assumes "ls \<noteq> []"
  shows "spherical_harmonics_alpha_z_y_jit_build ls =
     Inr \<lparr>k_ll_m = concat (map ll_m_of ls), k_shb = concat (map shb_of ls),
          k_lmax = Max (set ls), k_ls = ls\<rparr>"
proof -
  have "\<not> list_ex (\<lambda>a. snd a = []) (concat (map ll_m_of ls))"
    unfolding list_ex_iff using assigned_formulas by blast
  moreover have "\<not> list_ex (\<lambda>v. v \<notin> fst ` set (concat (map ll_m_of ls))) (concat (map shb_of ls))"
    unfolding list_ex_iff assigned_vars stacked_vars by blast
  ultimately show ?thesis using assms
    by (simp add: spherical_harmonics_alpha_z_y_jit_build_def jit_code_loop_of)
qed

lemma build_empty: "spherical_harmonics_alpha_z_y_jit_build [] = Inl ValueError"
  by (simp add: spherical_harmonics_alpha_z_y_jit_build_def)

lemma stacked_values:
  "map (\<lambda>v. poly_val z y (legendre_table (fst v) ! snd v)) (shb_of l) = beta_block z y l"
proof -
  have "map (\<lambda>v. poly_val z y (legendre_table (fst v) ! snd v)) (shb_of l) =
      map (\<lambda>m. poly_val z y (legendre_table l ! nat \<bar>m\<bar>)) [- int l..int l]"
    by (simp add: shb_of_def comp_def)
  also have "\<dots> = rev (map (\<lambda>m. poly_val z y (legendre_table l ! m)) [1..<l + 1]) @
      map (\<lambda>m. poly_val z y (legendre_table l ! m)) [0..<l + 1]"
    by (rule upto_mirror)
  also have "map (\<lambda>m. poly_val z y (legendre_table l ! m)) [0..<l + 1] =
      map (poly_val z y) (legendre_table l)"
    by (rule nth_equalityI) (simp_all add: length_legendre_table del: upt_Suc)
  also have "map (\<lambda>m. poly_val z y (legendre_table l ! m)) [1..<l + 1] =
      map (poly_val z y) (tl (legendre_table l))"
    by (rule nth_equalityI) (simp_all add: length_legendre_table nth_tl del: upt_Suc)
  finally show ?thesis by (simp only: beta_block_def)
qed

lemma kernel_main_closed:
  assumes "ls \<noteq> []"
  shows "kernel_main \<lparr>k_ll_m = concat (map ll_m_of ls), k_shb = concat (map shb_of ls),
          k_lmax = Max (set ls), k_ls = ls\<rparr> alpha z y =
     mul_m_lm ls (spherical_harmonics_alpha (Max (set ls)) alpha) (concat (map (beta_block z y) ls))"
proof -
  define asg where "asg = concat (map ll_m_of ls)"
  define F where "F = (\<lambda>v::var. legendre_table (fst v) ! snd v)"
  have "\<forall>a\<in>set asg. snd a = F (fst a) \<and> snd a \<noteq> []"
    unfolding asg_def F_def using assigned_formulas by blast
  from exec_ll_m_closed [OF this, of Map.empty z y] obtain env where
    env: "exec_ll_m asg Map.empty z y = Inr env"
    "\<forall>v. env v = (if v \<in> fst ` set asg
                  then Some (foldl (\<lambda>acc t. acc + term_val t z y) 0 (F v)) else None)"
    by auto
  have "\<forall>v\<in>set (concat (map shb_of ls)). env v = Some (poly_val z y (F v))"
    using env(2) unfolding asg_def assigned_vars stacked_vars poly_val_def by simp
  then have "stack_vars (concat (map shb_of ls)) env =
      Inr (map (\<lambda>v. poly_val z y (F v)) (concat (map shb_of ls)))"
    by (rule stack_vars_closed)
  also have "map (\<lambda>v. poly_val z y (F v)) (concat (map shb_of ls)) =
      concat (map (beta_block z y) ls)"
    unfolding F_def by (simp add: map_concat comp_def stacked_values)
  finally have st: "stack_vars (concat (map shb_of ls)) env = Inr (concat (map (beta_block z y) ls))" .
  from assms obtain l rest where "ls = l # rest" by (cases ls) auto
  then have ne: "concat (map (beta_block z y) ls) \<noteq> []"
    using length_beta_block [of z y l] by auto
  show ?thesis
    using env(1) st ne unfolding kernel_main_def asg_def by (simp del: concat_eq_Nil_conv)
qed

lemma cached_build:
  assumes "cache_ok cache"
  shows "fst (spherical_harmonics_alpha_z_y_jit_cached cache ls) =
           spherical_harmonics_alpha_z_y_jit_build ls"
proof (cases "map_of cache ls")
  case None
  then show ?thesis
    by (simp add: spherical_harmonics_alpha_z_y_jit_cached_def split: sum.splits)
next
  case (Some k)
  then have "(ls, k) \<in> set cache" by (rule map_of_SomeD)
  with assms have "spherical_harmonics_alpha_z_y_jit_build ls = Inr k"
    by (auto simp: cache_ok_def list_all_iff)
  with Some show ?thesis
    by (simp add: spherical_harmonics_alpha_z_y_jit_cached_def)
qed

lemma cached_cache_ok:
  assumes "cache_ok cache"
  shows "cache_ok (snd (spherical_harmonics_alpha_z_y_jit_cached cache ls))"
proof (cases "map_of cache ls")
  case None
  show ?thesis
  proof (cases "spherical_harmonics_alpha_z_y_jit_build ls")
    case (Inl e)
    with None assms show ?thesis
      by (simp add: spherical_harmonics_alpha_z_y_jit_cached_def)
  next
    case (Inr k)
    have "set (take 127 cache) \<subseteq> set cache" by (rule set_take_subset)
    with None Inr assms show ?thesis
      by (auto simp: spherical_harmonics_alpha_z_y_jit_cached_def cache_ok_def list_all_iff
          numeral_eq_Suc)
  qed
next
  case (Some k)
  then have "(ls, k) \<in> set cache" by (rule map_of_SomeD)
  with Some assms show ?thesis
    by (auto simp: spherical_harmonics_alpha_z_y_jit_cached_def cache_ok_def list_all_iff)
qed

lemma jit_closed:
  assumes "cache_ok cache"
  shows "fst (spherical_harmonics_alpha_z_y_jit cache ls alpha z y) =
     (case spherical_harmonics_alpha_z_y_jit_build ls of
        Inl e \<Rightarrow> Inl e | Inr f \<Rightarrow> kernel_main f alpha z y)"
  using cached_build [OF assms, of ls]
  by (cases "spherical_harmonics_alpha_z_y_jit_cached cache ls")
     (auto simp: spherical_harmonics_alpha_z_y_jit_def split: sum.splits)


lemma jit_equals_cpu:
  assumes "cache_ok cache"
  shows "fst (spherical_harmonics_alpha_z_y_jit cache ls alpha z y) =
         spherical_harmonics_alpha_z_y_cpu ls alpha z y"
proof (cases "ls = []")
  case True
  then show ?thesis
    by (simp add: jit_closed [OF assms] build_empty spherical_harmonics_alpha_z_y_cpu_def)
next
  case False
  show ?thesis
    unfolding jit_closed [OF assms] build_closed [OF False] cpu_closed [OF False]
    by (simp only: sum.case kernel_main_closed [OF False])
qed

lemma jit_cache_ok:
  assumes "cache_ok cache"
  shows "cache_ok (snd (spherical_harmonics_alpha_z_y_jit cache ls alpha z y))"
proof -
  have "snd (spherical_harmonics_alpha_z_y_jit cache ls alpha z y) =
      snd (spherical_harmonics_alpha_z_y_jit_cached cache ls)"
    by (cases "spherical_harmonics_alpha_z_y_jit_cached cache ls")
       (auto simp: spherical_harmonics_alpha_z_y_jit_def split: sum.splits)
  then show ?thesis using cached_cache_ok [OF assms, of ls] by simp
qed

text \<open>
  Claim C2. Let the kernel cache hold, for each key, the kernel compiled from that key
  (the empty cache does, and every call keeps it so). For every list \<open>ls\<close> of degrees and
  all entries \<open>alpha\<close>, \<open>z\<close>, \<open>y\<close> (NaN included), the specialised kernel for \<open>ls\<close>, taken
  from the cache or compiled now, returns exactly what the generic path returns: the
  composition of the azimuthal evaluator, the Legendre evaluator over the tables of
  \<open>poly_legendre\<close> and the combiner \<open>mul_m_lm\<close> (for the empty list both raise
  \<open>ValueError\<close>). The cache after the call again holds only kernels compiled from
  their keys.
\<close>

theorem jit_refines_cpu:
  assumes "cache_ok cache"
  shows "fst (spherical_harmonics_alpha_z_y_jit cache ls alpha z y) =
           spherical_harmonics_alpha_z_y_cpu ls alpha z y \<and>
         cache_ok (snd (spherical_harmonics_alpha_z_y_jit cache ls alpha z y))"
  using jit_equals_cpu [OF assms] jit_cache_ok [OF assms] by blast

subsection \<open>The combiner in closed form\<close>

lemma py_slice_middle:
  assumes "length blk = n"
  shows "py_slice (pre @ blk @ post) (int (length pre)) (int (length pre) + int n) = blk"
  using assms by (simp add: py_slice_def slice_bound_def flip: of_nat_add)

lemma py_slice_window:
  assumes "a + n \<le> length xs"
  shows "py_slice xs (int a) (int a + int n) = take n (drop a xs)"
  using assms by (simp add: py_slice_def slice_bound_def flip: of_nat_add)

lemma mul_m_lm_loop_closed:
  assumes "length x_m = 2 * lmax + 1"
    and "\<forall>l\<in>set ls. l \<le> lmax \<and> length (blk l) = 2 * l + 1"
  shows "mul_m_lm_loop lmax (length pre) ls x_m (pre @ concat (map blk ls)) =
     Inr (map (\<lambda>l. map2 (*) (blk l) (take (2 * l + 1) (drop (lmax - l) x_m))) ls)"
  using assms(2)
proof (induction ls arbitrary: pre)
  case Nil
  show ?case by simp
next
  case (Cons l ls)
  then have l: "l \<le> lmax" "length (blk l) = 2 * l + 1" by simp_all
  have s1: "py_slice (pre @ blk l @ concat (map blk ls)) (int (length pre)) (int (length pre) + 2 * int l + 1) = blk l"
    using py_slice_middle [of "blk l" "2 * l + 1" pre "concat (map blk ls)"] l(2)
    by (simp add: algebra_simps)
  have "(lmax - l) + (2 * l + 1) \<le> length x_m" using l(1) assms(1) by simp
  from py_slice_window [OF this] l(1)
  have s2: "py_slice x_m (int lmax - int l) (int lmax + int l + 1) = take (2 * l + 1) (drop (lmax - l) x_m)"
    by (simp add: algebra_simps of_nat_diff)
  have len: "length (take (2 * l + 1) (drop (lmax - l) x_m)) = 2 * l + 1"
    using l(1) assms(1) by simp
  have ih: "mul_m_lm_loop lmax (length (pre @ blk l)) ls x_m ((pre @ blk l) @ concat (map blk ls)) =
     Inr (map (\<lambda>l. map2 (*) (blk l) (take (2 * l + 1) (drop (lmax - l) x_m))) ls)"
    using Cons.prems by (intro Cons.IH) simp
  have i: "length (pre @ blk l) = length pre + 2 * l + 1" using l(2) by simp
  have tm: "tmul_bcast (blk l) (take (2 * l + 1) (drop (lmax - l) x_m)) =
      Inr (map2 (*) (blk l) (take (2 * l + 1) (drop (lmax - l) x_m)))"
    unfolding tmul_bcast_def using len l(2) by (simp only: refl if_True)
  have "mul_m_lm_loop lmax (length pre) (l # ls) x_m (pre @ blk l @ concat (map blk ls)) =
     Inr (map (\<lambda>l. map2 (*) (blk l) (take (2 * l + 1) (drop (lmax - l) x_m))) (l # ls))"
    using ih unfolding i
    by (simp only: mul_m_lm_loop.simps s1 s2 tm sum.case list.map append_assoc)
  then show ?case by simp
qed

lemma mul_m_lm_closed:
  assumes "ls \<noteq> []" "length x_m = 2 * lmax + 1"
    and "\<forall>l\<in>set ls. l \<le> lmax \<and> length (blk l) = 2 * l + 1"
  shows "mul_m_lm ls x_m (concat (map blk ls)) =
     Inr (concat (map (\<lambda>l. map2 (*) (blk l) (take (2 * l + 1) (drop (lmax - l) x_m))) ls))"
proof -
  have "length x_m div 2 = lmax" using assms(2) by simp
  with mul_m_lm_loop_closed [OF assms(2,3), of "[]"] assms(1) show ?thesis
    by (simp add: mul_m_lm_def)
qed

lemma cpu_value:
  assumes "ls \<noteq> []"
  shows "spherical_harmonics_alpha_z_y_cpu ls alpha z y =
     Inr (concat (map (\<lambda>l. map2 (*) (beta_block z y l)
            (take (2 * l + 1) (drop (Max (set ls) - l)
               (spherical_harmonics_alpha (Max (set ls)) alpha)))) ls))"
proof -
  have "\<forall>l\<in>set ls. l \<le> Max (set ls) \<and> length (beta_block z y l) = 2 * l + 1"
    by (simp add: length_beta_block)
  from mul_m_lm_closed [OF assms length_spherical_harmonics_alpha this]
  show ?thesis by (simp only: cpu_closed [OF assms])
qed

lemma cpu_length:
  assumes "spherical_harmonics_alpha_z_y_cpu ls alpha z y = Inr out"
  shows "length out = (\<Sum>l\<leftarrow>ls. 2 * l + 1)"
proof -
  have ne: "ls \<noteq> []" using assms by (auto simp: spherical_harmonics_alpha_z_y_cpu_def)
  have "length (map2 (*) (beta_block z y l)
            (take (2 * l + 1) (drop (Max (set ls) - l)
               (spherical_harmonics_alpha (Max (set ls)) alpha)))) = 2 * l + 1"
    if "l \<in> set ls" for l
  proof -
    from that have "l \<le> Max (set ls)" by simp
    then show ?thesis by (simp add: length_beta_block length_spherical_harmonics_alpha)
  qed
  then have "map length (map (\<lambda>l. map2 (*) (beta_block z y l)
            (take (2 * l + 1) (drop (Max (set ls) - l)
               (spherical_harmonics_alpha (Max (set ls)) alpha)))) ls) = map (\<lambda>l. 2 * l + 1) ls"
    unfolding map_map comp_def by (intro map_cong) simp_all
  moreover from assms have "out = concat (map (\<lambda>l. map2 (*) (beta_block z y l)
            (take (2 * l + 1) (drop (Max (set ls) - l)
               (spherical_harmonics_alpha (Max (set ls)) alpha)))) ls)"
    unfolding cpu_value [OF ne] by simp
  ultimately show ?thesis by (simp only: length_concat)
qed

subsection \<open>The polar factor at \<open>z = 1\<close>, \<open>y = 0\<close>\<close>

lemma term_val_Num:
  "term_val t (Num z) (Num y) = Num (fst t * z ^ fst (snd t) * y ^ snd (snd t))"
  by (cases t) (simp add: term_val_def Num_power)

lemma foldl_term_val_Num:
  "foldl (\<lambda>acc t. acc + term_val t (Num z) (Num y)) (Num v) ts =
     Num (v + (\<Sum>t\<leftarrow>ts. fst t * z ^ fst (snd t) * y ^ snd (snd t)))"
  by (induction ts arbitrary: v) (simp_all add: term_val_Num algebra_simps)

lemma peval_sum: "peval p z = (\<Sum>k\<leftarrow>[0..<length p]. p ! k * z ^ k)"
proof (induction p)
  case Nil
  show ?case by simp
next
  case (Cons a p)
  have "[0..<length (a # p)] = 0 # map Suc [0..<length p]"
    by (simp add: upt_conv_Cons map_Suc_upt del: upt_Suc)
  then have "(\<Sum>k\<leftarrow>[0..<length (a # p)]. (a # p) ! k * z ^ k) =
      a + (\<Sum>k\<leftarrow>[0..<length p]. z * (p ! k * z ^ k))"
    by (simp add: comp_def algebra_simps del: upt_Suc)
  also have "\<dots> = a + z * (\<Sum>k\<leftarrow>[0..<length p]. p ! k * z ^ k)"
    by (simp only: sum_list_const_mult)
  finally show ?case by (simp add: Cons.IH)
qed

lemma sum_list_filter_nonzero:
  "(\<Sum>k\<leftarrow>filter (\<lambda>k. (p::real list) ! k \<noteq> 0) ks. p ! k * (z::real) ^ k) = (\<Sum>k\<leftarrow>ks. p ! k * z ^ k)"
  by (induction ks) simp_all

lemma poly_val_as_terms:
  "poly_val (Num z) (Num y) (as_terms (p, m)) = Num (peval p z * y ^ m)"
proof -
  have "(\<Sum>t\<leftarrow>as_terms (p, m). fst t * z ^ fst (snd t) * y ^ snd (snd t)) =
      (\<Sum>k\<leftarrow>filter (\<lambda>k. p ! k \<noteq> 0) [0..<length p]. p ! k * z ^ k * y ^ m)"
    by (simp add: as_terms_def comp_def)
  also have "\<dots> = (\<Sum>k\<leftarrow>filter (\<lambda>k. p ! k \<noteq> 0) [0..<length p]. p ! k * z ^ k) * y ^ m"
    by (simp only: sum_list_mult_const)
  also have "\<dots> = peval p z * y ^ m"
    by (simp only: sum_list_filter_nonzero peval_sum)
  finally show ?thesis
    by (simp add: poly_val_def zero_tfloat_def foldl_term_val_Num)
qed

lemma legendre_norm_0: "legendre_norm l 0 = (- 1) ^ l * sqrt (real (2 * l + 1) / (4 * pi))"
  by (simp add: legendre_norm_def)

lemma poly_val_north_pole:
  assumes "m \<le> l"
  shows "poly_val (Num 1) (Num 0) (legendre_table l ! m) =
     Num (if m = 0 then (- 1) ^ l * sqrt (real (2 * l + 1) / (4 * pi)) else 0)"
proof -
  from sympy_legendre_facts [OF assms] obtain p where p: "sympy_legendre l (int m) = Some (p, m)"
    "\<forall>x. peval p x =
       peval ((pdiff ^^ (l + m)) (ppow [- 1, 0, 1] l)) x / (2 ^ l * fact l) * legendre_norm l m"
    by blast
  have t: "legendre_table l ! m = as_terms (p, m)"
    using assms p(1) by (simp add: legendre_table_nth)
  have v: "poly_val (Num 1) (Num 0) (legendre_table l ! m) = Num (peval p 1 * 0 ^ m)"
    unfolding t by (rule poly_val_as_terms)
  show ?thesis
  proof (cases "m = 0")
    case True
    with p(2) have "peval p 1 = (- 1) ^ l * sqrt (real (2 * l + 1) / (4 * pi))"
      by (simp add: rodrigues_at_one legendre_norm_0)
    with True v show ?thesis by simp
  next
    case False
    with v show ?thesis by simp
  qed
qed

lemma beta_block_north_pole:
  "beta_block (Num 1) (Num 0) l =
     replicate l (Num 0) @ [Num ((- 1) ^ l * sqrt (real (2 * l + 1) / (4 * pi)))] @ replicate l (Num 0)"
proof -
  define c where "c = (- 1) ^ l * sqrt (real (2 * l + 1) / (4 * pi))"
  have vals: "map (poly_val (Num 1) (Num 0)) (legendre_table l) = Num c # replicate l (Num 0)"
  proof (rule nth_equalityI)
    show "length (map (poly_val (Num 1) (Num 0)) (legendre_table l)) = length (Num c # replicate l (Num 0))"
      by (simp add: length_legendre_table)
  next
    fix i assume "i < length (map (poly_val (Num 1) (Num 0)) (legendre_table l))"
    then have "i \<le> l" by (simp add: length_legendre_table)
    then show "map (poly_val (Num 1) (Num 0)) (legendre_table l) ! i = (Num c # replicate l (Num 0)) ! i"
      using poly_val_north_pole [of i l]
      by (cases i) (simp_all add: length_legendre_table c_def)
  qed
  have "map (poly_val (Num 1) (Num 0)) (tl (legendre_table l)) = replicate l (Num 0)"
    using arg_cong [OF vals, of tl] by (simp add: map_tl)
  with vals show ?thesis by (simp add: beta_block_def c_def)
qed

lemma legendre_north_pole:
  "legendre [l] (Num 1) (Some (Num 0)) =
     Inr (replicate l (Num 0) @ [Num ((- 1) ^ l * sqrt (real (2 * l + 1) / (4 * pi)))] @ replicate l (Num 0))"
  by (simp add: legendre_closed beta_block_north_pole)

subsection \<open>The Cartesian entry point\<close>

lemma tnorm_Num: "tnorm (Num x, Num y, Num z) = Num (sqrt (x\<^sup>2 + y\<^sup>2 + z\<^sup>2))"
  by (simp add: tnorm_def Num_power not_less)

lemma tnorm_zero_iff: "tnorm (Num x, Num y, Num z) = Num 0 \<longleftrightarrow> x = 0 \<and> y = 0 \<and> z = 0"
proof -
  have "x\<^sup>2 + y\<^sup>2 + z\<^sup>2 = 0 \<longleftrightarrow> x = 0 \<and> y = 0 \<and> z = 0"
    by (simp add: sum_power2_eq_zero_iff add_nonneg_eq_0_iff)
  then show ?thesis by (simp add: tnorm_Num)
qed

lemma normalize_zero: "normalize (Num 0, Num 0, Num 0) = (NaN, NaN, NaN)"
  by (simp add: normalize_def tnorm_Num)

lemma normalize_Num:
  assumes "(x, y, z) \<noteq> (0, 0, 0)"
  shows "normalize (Num x, Num y, Num z) =
     (Num (x / sqrt (x\<^sup>2 + y\<^sup>2 + z\<^sup>2)), Num (y / sqrt (x\<^sup>2 + y\<^sup>2 + z\<^sup>2)),
      Num (z / sqrt (x\<^sup>2 + y\<^sup>2 + z\<^sup>2)))"
proof -
  from assms have "\<not> (x = 0 \<and> y = 0 \<and> z = 0)" by simp
  then have "sqrt (x\<^sup>2 + y\<^sup>2 + z\<^sup>2) \<noteq> 0"
    by (simp add: sum_power2_eq_zero_iff add_nonneg_eq_0_iff)
  then show ?thesis by (simp add: normalize_def tnorm_Num)
qed

lemma xyz_cpu_closed:
  assumes "cache_ok cache"
  shows "fst (spherical_harmonics_xyz_cpu cache ls xyz) =
     (case normalize xyz of (x, y, z) \<Rightarrow>
        spherical_harmonics_alpha_z_y_cpu ls (tatan2 y x) z (tsqrt (x ^ 2 + y ^ 2)))"
  by (cases "normalize xyz")
     (simp add: spherical_harmonics_xyz_cpu_def jit_equals_cpu [OF assms])

lemma xyz_cpu_cache_ok:
  assumes "cache_ok cache"
  shows "cache_ok (snd (spherical_harmonics_xyz_cpu cache ls xyz))"
  by (cases "normalize xyz")
     (simp add: spherical_harmonics_xyz_cpu_def jit_cache_ok [OF assms])

lemma cache_ok_empty: "cache_ok []"
  by (simp add: cache_ok_def)

lemma NaN_power: "0 < n \<Longrightarrow> NaN ^ n = NaN"
  by (cases n) simp_all

lemma times_NaN_right: "x * NaN = NaN"
  by (cases x) simp_all

lemma plus_NaN_right: "x + NaN = NaN"
  by (cases x) simp_all

lemma term_val_NaN: "0 < nz + ny \<Longrightarrow> term_val (c, nz, ny) NaN NaN = NaN"
  by (cases "ny = 0") (simp_all add: term_val_def NaN_power times_NaN_right)

lemma foldl_from_NaN: "foldl (\<lambda>acc t. acc + term_val t z y) NaN ts = NaN"
  by (induction ts) simp_all

lemma foldl_has_NaN:
  "t \<in> set ts \<Longrightarrow> term_val t z y = NaN \<Longrightarrow> foldl (\<lambda>acc t. acc + term_val t z y) v ts = NaN"
  by (induction ts arbitrary: v) (auto simp: plus_NaN_right foldl_from_NaN)

lemma poly_val_NaN:
  assumes "1 \<le> l" "m \<le> l"
  shows "poly_val NaN NaN (legendre_table l ! m) = NaN"
proof -
  from sympy_legendre_facts [OF assms(2)] obtain p where p: "sympy_legendre l (int m) = Some (p, m)"
    "length p = l - m + 1" "last p \<noteq> 0" by blast
  have t: "legendre_table l ! m = as_terms (p, m)"
    using assms(2) p(1) by (simp add: legendre_table_nth)
  from p(2) have "p \<noteq> []" by auto
  with p have "p ! (l - m) \<noteq> 0" by (simp add: last_conv_nth)
  with p(2) have "(p ! (l - m), l - m, m) \<in> set (as_terms (p, m))"
    by (auto simp: as_terms_def)
  moreover from assms have "term_val (p ! (l - m), l - m, m) NaN NaN = NaN"
    by (intro term_val_NaN) simp
  ultimately show ?thesis unfolding t poly_val_def by (rule foldl_has_NaN)
qed

lemma beta_block_NaN:
  assumes "1 \<le> l"
  shows "beta_block NaN NaN l = replicate (2 * l + 1) NaN"
proof -
  have "\<forall>v\<in>set (map (poly_val NaN NaN) (legendre_table l)). v = NaN"
    using poly_val_NaN [OF assms] by (auto simp: in_set_conv_nth length_legendre_table)
  from replicate_length_same [OF this]
  have a: "map (poly_val NaN NaN) (legendre_table l) = replicate (l + 1) NaN"
    by (simp add: length_legendre_table)
  then have "map (poly_val NaN NaN) (tl (legendre_table l)) = replicate l NaN"
    using arg_cong [OF a, of tl] by (simp add: map_tl)
  with a have "beta_block NaN NaN l = replicate l NaN @ replicate (l + 1) NaN"
    by (simp add: beta_block_def)
  then show ?thesis by (simp add: replicate_add [symmetric] del: replicate_Suc)
qed

lemma beta_block_0: "beta_block z y 0 = [Num (sqrt (1 / (4 * pi)))]"
proof -
  have "legendre_table 0 = [[(sqrt (1 / (4 * pi)), 0, 0)]]"
    by (simp add: legendre_table_def sympy_legendre_def as_terms_def pdiff_def legendre_norm_def Let_def)
  then show ?thesis
    by (simp add: beta_block_def poly_val_def term_val_def zero_tfloat_def one_tfloat_def)
qed

lemma map2_times_NaN:
  "length w = n \<Longrightarrow> map2 (*) (replicate n NaN) w = replicate n NaN"
  by (induction w arbitrary: n) auto

lemma alpha_centre_window:
  "take (2 * 0 + 1) (drop (n - 0) (spherical_harmonics_alpha n alpha)) = [1]"
proof -
  have "n < length (spherical_harmonics_alpha n alpha)"
    by (simp add: length_spherical_harmonics_alpha)
  from Cons_nth_drop_Suc [OF this] have "drop n (spherical_harmonics_alpha n alpha) =
      spherical_harmonics_alpha n alpha ! n # drop (Suc n) (spherical_harmonics_alpha n alpha)"
    by simp
  then show ?thesis by (simp add: alpha_centre_entry)
qed

lemma cpu_NaN:
  assumes "ls \<noteq> []"
  shows "spherical_harmonics_alpha_z_y_cpu ls NaN NaN NaN =
     Inr (concat (map (\<lambda>l. if l = 0 then [Num (sqrt (1 / (4 * pi)))]
                            else replicate (2 * l + 1) NaN) ls))"
proof -
  have "map2 (*) (beta_block NaN NaN l)
            (take (2 * l + 1) (drop (Max (set ls) - l)
               (spherical_harmonics_alpha (Max (set ls)) NaN))) =
        (if l = 0 then [Num (sqrt (1 / (4 * pi)))] else replicate (2 * l + 1) NaN)"
    if "l \<in> set ls" for l
  proof (cases "l = 0")
    case True
    show ?thesis unfolding True beta_block_0 alpha_centre_window
      by (simp add: one_tfloat_def)
  next
    case False
    from that have "l \<le> Max (set ls)" by simp
    then have "length (take (2 * l + 1) (drop (Max (set ls) - l)
               (spherical_harmonics_alpha (Max (set ls)) NaN))) = 2 * l + 1"
      by (simp add: length_spherical_harmonics_alpha)
    from map2_times_NaN [OF this] False show ?thesis
      by (simp add: beta_block_NaN del: replicate_Suc)
  qed
  then have "map (\<lambda>l. map2 (*) (beta_block NaN NaN l)
            (take (2 * l + 1) (drop (Max (set ls) - l)
               (spherical_harmonics_alpha (Max (set ls)) NaN)))) ls =
      map (\<lambda>l. if l = 0 then [Num (sqrt (1 / (4 * pi)))] else replicate (2 * l + 1) NaN) ls"
    by (intro map_cong) simp_all
  then show ?thesis by (simp only: cpu_value [OF assms])
qed

lemma xyz_cpu_zero:
  assumes "cache_ok cache" "ls \<noteq> []"
  shows "fst (spherical_harmonics_xyz_cpu cache ls (Num 0, Num 0, Num 0)) =
     Inr (concat (map (\<lambda>l. if l = 0 then [Num (sqrt (1 / (4 * pi)))]
                            else replicate (2 * l + 1) NaN) ls))"
proof -
  have "tsqrt (NaN ^ 2 + NaN ^ 2) = NaN" by (simp add: NaN_power)
  then show ?thesis
    by (simp add: xyz_cpu_closed [OF assms(1)] normalize_zero cpu_NaN [OF assms(2)]
        del: replicate_Suc)
qed

lemma xyz_cpu_north_pole:
  assumes "cache_ok cache"
  shows "fst (spherical_harmonics_xyz_cpu cache [1] (Num 0, Num 0, Num 1)) =
     Inr [Num 0, Num (- sqrt (3 / (4 * pi))), Num 0]"
proof -
  have n: "normalize (Num 0, Num 0, Num 1) = (Num 0, Num 0, Num 1)"
    using normalize_Num [of 0 0 1] by simp
  have a: "spherical_harmonics_alpha (Suc 0) (Num 0) = [Num 0, Num 1, Num (sqrt 2)]"
    by (simp add: spherical_harmonics_alpha_def one_tfloat_def)
  have b: "beta_block (Num 1) (Num 0) (Suc 0) = [Num 0, Num (- sqrt (3 / (4 * pi))), Num 0]"
    using beta_block_north_pole [of "Suc 0"] by simp
  have "spherical_harmonics_alpha_z_y_cpu [1] (Num 0) (Num 1) (Num 0) =
      Inr [Num 0, Num (- sqrt (3 / (4 * pi))), Num 0]"
    using cpu_value [of "[1]" "Num 0" "Num 1" "Num 0"] by (simp add: a b numeral_3_eq_3)
  then show ?thesis
    by (simp add: xyz_cpu_closed [OF assms] n atan2_def Num_power)
qed

lemma cpu_north_pole:
  "spherical_harmonics_alpha_z_y_cpu [1] (Num 0) (Num 1) (Num 0) =
     Inr [Num 0, Num (- sqrt (3 / (4 * pi))), Num 0]"
proof -
  have a: "spherical_harmonics_alpha (Suc 0) (Num 0) = [Num 0, Num 1, Num (sqrt 2)]"
    by (simp add: spherical_harmonics_alpha_def one_tfloat_def)
  have b: "beta_block (Num 1) (Num 0) (Suc 0) = [Num 0, Num (- sqrt (3 / (4 * pi))), Num 0]"
    using beta_block_north_pole [of "Suc 0"] by simp
  show ?thesis
    using cpu_value [of "[1]" "Num 0" "Num 1" "Num 0"] by (simp add: a b numeral_3_eq_3)
qed

subsection \<open>The claims on the polar factor, the kernel and the Cartesian entry point\<close>

text \<open>
  Claim C1, as stated, fails: for the degree 1 the polar factor at \<open>z = 1\<close>, \<open>y = 0\<close> is
  \<open>- sqrt (3 / (4 pi))\<close> at the order 0, not \<open>sqrt (3 / (4 pi))\<close>, and the direction
  \<open>(0, 0, 1)\<close> with \<open>ls = [1]\<close> gives \<open>(0, - sqrt (3 / (4 pi)), 0)\<close>: \<open>sympy_legendre\<close>
  multiplies by \<open>(-1)\<^sup>l\<close>.
\<close>

theorem polar_factor_sign_counterexample:
  "legendre [1] (Num 1) (Some (Num 0)) = Inr [Num 0, Num (- sqrt (3 / (4 * pi))), Num 0] \<and>
   legendre [1] (Num 1) (Some (Num 0)) \<noteq> Inr [Num 0, Num (sqrt (3 / (4 * pi))), Num 0] \<and>
   fst (spherical_harmonics_xyz_cpu [] [1] (Num 0, Num 0, Num 1)) =
     Inr [Num 0, Num (- sqrt (3 / (4 * pi))), Num 0] \<and>
   fst (spherical_harmonics_xyz_cpu [] [1] (Num 0, Num 0, Num 1)) \<noteq>
     Inr [Num 0, Num (sqrt (3 / (4 * pi))), Num 0]"
  using legendre_north_pole [of 1] xyz_cpu_north_pole [OF cache_ok_empty] by simp

text \<open>
  Claim C1, amended. For every degree \<open>l \<ge> 0\<close> the polar factor at \<open>z = 1\<close>, \<open>y = 0\<close> is
  \<open>(-1)\<^sup>l sqrt ((2 l + 1) / (4 pi))\<close> at the order 0 (the middle of the block) and 0 at
  every other order; and for the direction \<open>(0, 0, 1)\<close> with \<open>ls = [1]\<close> the output is
  \<open>(0, - sqrt (3 / (4 pi)), 0)\<close>, whatever kernels the cache holds.
\<close>

theorem polar_factor_north_pole:
  assumes "cache_ok cache"
  shows "legendre [l] (Num 1) (Some (Num 0)) =
           Inr (replicate l (Num 0) @ [Num ((- 1) ^ l * sqrt (real (2 * l + 1) / (4 * pi)))]
                @ replicate l (Num 0)) \<and>
         fst (spherical_harmonics_xyz_cpu cache [1] (Num 0, Num 0, Num 1)) =
           Inr [Num 0, Num (- sqrt (3 / (4 * pi))), Num 0]"
  using legendre_north_pole [of l] xyz_cpu_north_pole [OF assms] by blast

theorem polar_factor_north_pole_witness:
  "cache_ok [] \<and>
   legendre [2] (Num 1) (Some (Num 0)) =
     Inr [Num 0, Num 0, Num (sqrt (5 / (4 * pi))), Num 0, Num 0] \<and>
   fst (spherical_harmonics_xyz_cpu [] [1] (Num 0, Num 0, Num 1)) =
     Inr [Num 0, Num (- sqrt (3 / (4 * pi))), Num 0]"
  using polar_factor_north_pole [OF cache_ok_empty, of 2]
  by (simp add: cache_ok_empty numeral_2_eq_2)

theorem jit_refines_cpu_witness:
  "cache_ok [] \<and>
   fst (spherical_harmonics_alpha_z_y_jit [] [1] (Num 0) (Num 1) (Num 0)) =
     Inr [Num 0, Num (- sqrt (3 / (4 * pi))), Num 0] \<and>
   spherical_harmonics_alpha_z_y_cpu [1] (Num 0) (Num 1) (Num 0) =
     Inr [Num 0, Num (- sqrt (3 / (4 * pi))), Num 0] \<and>
   cache_ok (snd (spherical_harmonics_alpha_z_y_jit [] [1] (Num 0) (Num 1) (Num 0)))"
  using jit_refines_cpu [OF cache_ok_empty, of "[1]" "Num 0" "Num 1" "Num 0"]
    cpu_north_pole cache_ok_empty
  by simp

text \<open>
  Claim C3, as stated, fails: for the zero vector and \<open>ls = [1]\<close> the call raises nothing
  and returns three NaN entries.
\<close>

theorem zero_vector_counterexample:
  "fst (spherical_harmonics_xyz_cpu [] [1] (Num 0, Num 0, Num 0)) = Inr [NaN, NaN, NaN] \<and>
   fst (spherical_harmonics_xyz_cpu [] [1] (Num 0, Num 0, Num 0)) \<noteq> Inl DegenerateVector"
  using xyz_cpu_zero [OF cache_ok_empty, of "[1]"] by (simp add: numeral_3_eq_3)

text \<open>
  Claim C3, amended. Given a direction of zero norm, the Cartesian entry point raises no
  \<open>DegenerateVector\<close> error and checks nothing: the division by the norm makes every
  component NaN, and the call returns a value, namely for each requested degree
  \<open>l \<ge> 1\<close> a block of \<open>2 l + 1\<close> NaN entries and for the degree 0 the constant
  \<open>sqrt (1 / (4 pi))\<close> (for the empty list of degrees it raises \<open>ValueError\<close>, as for
  every direction).
\<close>

theorem zero_vector_silent:
  assumes "cache_ok cache"
  shows "fst (spherical_harmonics_xyz_cpu cache ls (Num 0, Num 0, Num 0)) =
     (if ls = [] then Inl ValueError
      else Inr (concat (map (\<lambda>l. if l = 0 then [Num (sqrt (1 / (4 * pi)))]
                                  else replicate (2 * l + 1) NaN) ls)))"
proof (cases "ls = []")
  case True
  then show ?thesis
    by (simp add: xyz_cpu_closed [OF assms] normalize_zero spherical_harmonics_alpha_z_y_cpu_def)
next
  case False
  then show ?thesis by (simp only: xyz_cpu_zero [OF assms False] if_False)
qed

theorem zero_vector_silent_witness:
  "cache_ok [] \<and>
   fst (spherical_harmonics_xyz_cpu [] [0, 1] (Num 0, Num 0, Num 0)) =
     Inr [Num (sqrt (1 / (4 * pi))), NaN, NaN, NaN]"
  using zero_vector_silent [OF cache_ok_empty, of "[0, 1]"]
  by (simp add: cache_ok_empty numeral_3_eq_3)

subsection \<open>The layout converter\<close>

lemma slice_bound_in_range: "a \<le> n \<Longrightarrow> slice_bound n (int a) = a"
  by (simp add: slice_bound_def)

lemma eye_nth: "r < n \<Longrightarrow> c < n \<Longrightarrow> eye n ! r ! c = (if r = c then 1 else 0)"
  by (simp add: eye_def)

lemma eye_shape: "length (eye n) = n \<and> list_all (\<lambda>row. length row = n) (eye n)"
  by (simp add: eye_def list_all_iff)

lemma set_block_zero:
  assumes "l \<le> lmax" "i + 2 * l + 1 \<le> K"
  shows "set_block (replicate (2 * lmax + 1) (replicate K 0)) (lmax - l) (lmax + l + 1)
           i (i + 2 * l + 1) (eye (2 * l + 1)) = Inr (expand_block lmax K i l)"
proof -
  let ?Z = "replicate (2 * lmax + 1) (replicate K (0::real))"
  have shape: "length (eye (2 * l + 1)) = (lmax + l + 1) - (lmax - l) \<and>
      list_all (\<lambda>row. length row = (i + 2 * l + 1) - i) (eye (2 * l + 1))"
    using assms(1) eye_shape [of "2 * l + 1"] by simp
  have rows: "(if lmax - l \<le> r \<and> r < lmax + l + 1
        then map (\<lambda>c. if i \<le> c \<and> c < i + 2 * l + 1
                       then eye (2 * l + 1) ! (r - (lmax - l)) ! (c - i) else ?Z ! r ! c)
               [0..<length (?Z ! r)]
        else ?Z ! r) =
      map (\<lambda>c. if lmax - l \<le> r \<and> r < lmax + l + 1 \<and> i \<le> c \<and> c < i + 2 * l + 1 \<and>
                  r - (lmax - l) = c - i then 1 else 0) [0..<K]"
    if r: "r < 2 * lmax + 1" for r
  proof (cases "lmax - l \<le> r \<and> r < lmax + l + 1")
    case True
    have zr: "?Z ! r = replicate K 0" using r by (intro nth_replicate)
    from True have rr: "r - (lmax - l) < 2 * l + 1" using assms(1) by auto
    have "map (\<lambda>c. if i \<le> c \<and> c < i + 2 * l + 1
                       then eye (2 * l + 1) ! (r - (lmax - l)) ! (c - i) else ?Z ! r ! c) [0..<K] =
        map (\<lambda>c. if lmax - l \<le> r \<and> r < lmax + l + 1 \<and> i \<le> c \<and> c < i + 2 * l + 1 \<and>
                  r - (lmax - l) = c - i then 1 else 0) [0..<K]"
    proof (rule map_cong [OF refl])
      fix c assume "c \<in> set [0..<K]"
      then have c: "c < K" by simp
      show "(if i \<le> c \<and> c < i + 2 * l + 1
                       then eye (2 * l + 1) ! (r - (lmax - l)) ! (c - i) else ?Z ! r ! c) =
        (if lmax - l \<le> r \<and> r < lmax + l + 1 \<and> i \<le> c \<and> c < i + 2 * l + 1 \<and>
                  r - (lmax - l) = c - i then 1 else 0)"
      proof (cases "i \<le> c \<and> c < i + 2 * l + 1")
        case True
        then have "c - i < 2 * l + 1" by auto
        from eye_nth [OF rr this] True \<open>lmax - l \<le> r \<and> r < lmax + l + 1\<close> show ?thesis by simp
      next
        case False
        with c show ?thesis unfolding zr by auto
      qed
    qed
    with True show ?thesis unfolding zr by simp
  next
    case False
    have zr: "?Z ! r = replicate K 0" using r by (intro nth_replicate)
    from False have "map (\<lambda>c. if lmax - l \<le> r \<and> r < lmax + l + 1 \<and> i \<le> c \<and> c < i + 2 * l + 1 \<and>
                  r - (lmax - l) = c - i then 1 else 0) [0..<K] = map (\<lambda>c. (0::real)) [0..<K]"
      by (intro map_cong) auto
    also have "\<dots> = replicate K 0" by (simp add: map_replicate_const)
    finally show ?thesis using False unfolding zr by (simp only: if_False)
  qed
  have "map (\<lambda>r. if lmax - l \<le> r \<and> r < lmax + l + 1
        then map (\<lambda>c. if i \<le> c \<and> c < i + 2 * l + 1
                       then eye (2 * l + 1) ! (r - (lmax - l)) ! (c - i) else ?Z ! r ! c)
               [0..<length (?Z ! r)]
        else ?Z ! r) [0..<length ?Z] = expand_block lmax K i l"
    unfolding expand_block_def
  proof (rule map_cong)
    show "[0..<length ?Z] = [0..<2 * lmax + 1]" by simp
  next
    fix r assume "r \<in> set [0..<2 * lmax + 1]"
    then have "r < 2 * lmax + 1" by auto
    then show "(if lmax - l \<le> r \<and> r < lmax + l + 1
        then map (\<lambda>c. if i \<le> c \<and> c < i + 2 * l + 1
                       then eye (2 * l + 1) ! (r - (lmax - l)) ! (c - i) else ?Z ! r ! c)
               [0..<length (?Z ! r)]
        else ?Z ! r) =
      map (\<lambda>c. if lmax - l \<le> r \<and> r < lmax + l + 1 \<and> i \<le> c \<and> c < i + 2 * l + 1 \<and>
                  r - (lmax - l) = c - i then 1 else 0) [0..<K]"
      by (rule rows)
  qed
  with shape show ?thesis unfolding set_block_def by (simp only: refl simp_thms if_True)
qed


lemma expand_loop_closed:
  assumes "\<forall>l\<in>set ls. l \<le> lmax" "i + sum_list (map (\<lambda>l. 2 * l + 1) ls) \<le> K"
  shows "expand_loop lmax K (length pre) i ls
           (pre @ replicate (length ls) (replicate (2 * lmax + 1) (replicate K 0))) =
         Inr (pre @ expand_blocks lmax K i ls)"
  using assms
proof (induction ls arbitrary: pre i)
  case Nil
  show ?case by simp
next
  case (Cons l ls)
  let ?Z = "replicate (2 * lmax + 1) (replicate K (0::real))"
  let ?m = "pre @ replicate (length (l # ls)) ?Z"
  from Cons.prems have l: "l \<le> lmax" and i: "i + 2 * l + 1 \<le> K"
    and rest: "\<forall>l\<in>set ls. l \<le> lmax" "(i + 2 * l + 1) + sum_list (map (\<lambda>l. 2 * l + 1) ls) \<le> K"
    by simp_all
  have j: "length pre < length ?m" by simp
  have mj: "?m ! length pre = ?Z" by (simp add: nth_append del: replicate.simps)
  have b1: "slice_bound (2 * lmax + 1) (int lmax - int l) = lmax - l"
    using l by (auto simp: slice_bound_def nat_diff_distrib)
  have b2: "slice_bound (2 * lmax + 1) (int lmax + int l + 1) = lmax + l + 1"
    using l by (auto simp: slice_bound_def nat_add_distrib)
  have b3: "slice_bound K (int i) = i"
    using i by (auto simp: slice_bound_def)
  have b4: "slice_bound K (int i + 2 * int l + 1) = i + 2 * l + 1"
    using i by (auto simp: slice_bound_def nat_add_distrib nat_mult_distrib)
  have upd: "?m[length pre := expand_block lmax K i l] =
      (pre @ [expand_block lmax K i l]) @ replicate (length ls) ?Z"
    by (simp add: list_update_append)
  have ih: "expand_loop lmax K (length (pre @ [expand_block lmax K i l])) (i + 2 * l + 1) ls
      ((pre @ [expand_block lmax K i l]) @ replicate (length ls) ?Z) =
      Inr ((pre @ [expand_block lmax K i l]) @ expand_blocks lmax K (i + 2 * l + 1) ls)"
    by (rule Cons.IH [OF rest])
  have "expand_loop lmax K (length pre) i (l # ls) ?m =
      expand_loop lmax K (Suc (length pre)) (i + 2 * l + 1) ls (?m[length pre := expand_block lmax K i l])"
    using j by (simp only: expand_loop.simps if_True mj b1 b2 b3 b4 set_block_zero [OF l i] sum.case)
  also have "\<dots> = Inr ((pre @ [expand_block lmax K i l]) @ expand_blocks lmax K (i + 2 * l + 1) ls)"
    using ih unfolding upd by simp
  finally show ?case by simp
qed

lemma expand_matrix_closed:
  assumes "ls \<noteq> []"
  shows "spherical_harmonics_expand_matrix ls =
     Inr (expand_blocks (Max (set ls)) (sum_list (map (\<lambda>l. 2 * l + 1) ls)) 0 ls)"
proof -
  have "\<forall>l\<in>set ls. l \<le> Max (set ls)" by simp
  from expand_loop_closed [OF this, of 0 "sum_list (map (\<lambda>l. 2 * l + 1) ls)" "[]"] assms
  show ?thesis by (simp add: spherical_harmonics_expand_matrix_def zeros3_def Let_def)
qed

lemma length_expand_blocks: "length (expand_blocks lmax K i ls) = length ls"
  by (induction ls arbitrary: i) simp_all

lemma offset_Suc: "offset (l # ls) (Suc j) = 2 * l + 1 + offset ls j"
  by (simp add: offset_def)

lemma offset_0: "offset ls 0 = 0"
  by (simp add: offset_def)

lemma expand_blocks_nth:
  "j < length ls \<Longrightarrow>
     expand_blocks lmax K i ls ! j = expand_block lmax K (i + offset ls j) (ls ! j)"
proof (induction ls arbitrary: i j)
  case Nil
  then show ?case by simp
next
  case (Cons l ls)
  show ?case
  proof (cases j)
    case 0
    then show ?thesis by (simp add: offset_0)
  next
    case (Suc j')
    with Cons.prems have "j' < length ls" by simp
    from Cons.IH [OF this, of "i + 2 * l + 1"] Suc show ?thesis
      by (simp add: offset_Suc algebra_simps)
  qed
qed

lemma expand_block_shape:
  "length (expand_block lmax K i l) = 2 * lmax + 1"
  "r < 2 * lmax + 1 \<Longrightarrow> length (expand_block lmax K i l ! r) = K"
  by (simp_all add: expand_block_def del: upt_Suc)

lemma expand_block_nth:
  "r < 2 * lmax + 1 \<Longrightarrow> c < K \<Longrightarrow> expand_block lmax K i l ! r ! c =
     (if lmax - l \<le> r \<and> r < lmax + l + 1 \<and> i \<le> c \<and> c < i + 2 * l + 1 \<and>
         r - (lmax - l) = c - i then 1 else 0)"
  by (simp add: expand_block_def del: upt_Suc)

lemma sum_list_delta:
  "k0 < n \<Longrightarrow> (\<Sum>k\<leftarrow>[0..<n]. if k = k0 then f k else (0::real)) = f k0"
  by (simp add: interv_sum_list_conv_sum_set_nat)

lemma sum_list_zero: "(\<Sum>k\<leftarrow>xs. (0::real)) = 0"
  by (induction xs) simp_all

lemma offset_step: "j < length ls \<Longrightarrow> offset ls (Suc j) = offset ls j + (2 * ls ! j + 1)"
  by (simp add: offset_def take_Suc_conv_app_nth)

lemma offset_le_total: "offset ls j \<le> sum_list (map (\<lambda>l. 2 * l + 1) ls)"
proof -
  have "sum_list (map (\<lambda>l. 2 * l + 1) (take j ls @ drop j ls)) =
      sum_list (map (\<lambda>l. 2 * l + 1) (take j ls)) + sum_list (map (\<lambda>l. 2 * l + 1) (drop j ls))"
    by (simp only: map_append sum_list_append)
  then have "sum_list (map (\<lambda>l. 2 * l + 1) ls) =
      sum_list (map (\<lambda>l. 2 * l + 1) (take j ls)) + sum_list (map (\<lambda>l. 2 * l + 1) (drop j ls))"
    by (simp only: append_take_drop_id)
  then show ?thesis by (simp add: offset_def)
qed

lemma offset_block_le_total:
  assumes "j < length ls"
  shows "offset ls j + (2 * ls ! j + 1) \<le> sum_list (map (\<lambda>l. 2 * l + 1) ls)"
  using offset_le_total [of ls "Suc j"] offset_step [OF assms] by simp

lemma block_times_vector:
  assumes "l \<le> lmax" "i + 2 * l + 1 \<le> K" "r < 2 * lmax + 1"
  shows "(\<Sum>k\<leftarrow>[0..<K]. expand_block lmax K i l ! r ! k * v ! k) =
     (if lmax - l \<le> r \<and> r \<le> lmax + l then v ! (i + (r - (lmax - l))) else 0)"
proof (cases "lmax - l \<le> r \<and> r \<le> lmax + l")
  case True
  define k0 where "k0 = i + (r - (lmax - l))"
  from True assms have k0: "k0 < K" unfolding k0_def by auto
  have "map (\<lambda>k. expand_block lmax K i l ! r ! k * v ! k) [0..<K] =
      map (\<lambda>k. if k = k0 then v ! k else 0) [0..<K]"
  proof (rule map_cong [OF refl])
    fix k assume "k \<in> set [0..<K]"
    then have "k < K" by simp
    from expand_block_nth [OF assms(3) this, of i l] True assms(1)
    show "expand_block lmax K i l ! r ! k * v ! k = (if k = k0 then v ! k else 0)"
      unfolding k0_def by auto
  qed
  then have "(\<Sum>k\<leftarrow>[0..<K]. expand_block lmax K i l ! r ! k * v ! k) =
      (\<Sum>k\<leftarrow>[0..<K]. if k = k0 then v ! k else 0)" by (rule arg_cong)
  also have "\<dots> = v ! k0" using k0 by (rule sum_list_delta)
  finally show ?thesis using True by (simp add: k0_def)
next
  case False
  have "map (\<lambda>k. expand_block lmax K i l ! r ! k * v ! k) [0..<K] = map (\<lambda>k. 0) [0..<K]"
  proof (rule map_cong [OF refl])
    fix k assume "k \<in> set [0..<K]"
    then have "k < K" by simp
    from expand_block_nth [OF assms(3) this, of i l] False
    show "expand_block lmax K i l ! r ! k * v ! k = 0" by auto
  qed
  then have "(\<Sum>k\<leftarrow>[0..<K]. expand_block lmax K i l ! r ! k * v ! k) = (\<Sum>k\<leftarrow>[0..<K]. 0)"
    by (rule arg_cong)
  with False show ?thesis by (auto simp: sum_list_zero)
qed

lemma block_contract:
  assumes "l \<le> lmax" "i + 2 * l + 1 \<le> K" "k < K"
    and "\<forall>r<2 * lmax + 1. e ! r =
           (if lmax - l \<le> r \<and> r \<le> lmax + l then v ! (i + (r - (lmax - l))) else 0)"
  shows "(\<Sum>r\<leftarrow>[0..<2 * lmax + 1]. expand_block lmax K i l ! r ! k * e ! r) =
     (if i \<le> k \<and> k < i + 2 * l + 1 then v ! k else 0)"
proof (cases "i \<le> k \<and> k < i + 2 * l + 1")
  case True
  define r0 where "r0 = (lmax - l) + (k - i)"
  from True assms(1) have r0: "r0 < 2 * lmax + 1" unfolding r0_def by auto
  have "map (\<lambda>r. expand_block lmax K i l ! r ! k * e ! r) [0..<2 * lmax + 1] =
      map (\<lambda>r. if r = r0 then v ! k else 0) [0..<2 * lmax + 1]"
  proof (rule map_cong [OF refl])
    fix r assume "r \<in> set [0..<2 * lmax + 1]"
    then have r: "r < 2 * lmax + 1" by auto
    show "expand_block lmax K i l ! r ! k * e ! r = (if r = r0 then v ! k else 0)"
    proof (cases "r = r0")
      case True
      with \<open>i \<le> k \<and> k < i + 2 * l + 1\<close> assms(1)
      have band: "lmax - l \<le> r \<and> r \<le> lmax + l" and idx: "i + (r - (lmax - l)) = k"
        and diag: "r - (lmax - l) = k - i"
        unfolding r0_def by auto
      from assms(4) r band idx have "e ! r = v ! k" by simp
      moreover from expand_block_nth [OF r assms(3), of i l] band diag \<open>i \<le> k \<and> k < i + 2 * l + 1\<close>
      have "expand_block lmax K i l ! r ! k = 1" by simp
      ultimately show ?thesis using True by simp
    next
      case False
      with \<open>i \<le> k \<and> k < i + 2 * l + 1\<close>
      have "\<not> (lmax - l \<le> r \<and> r < lmax + l + 1 \<and> r - (lmax - l) = k - i)"
        unfolding r0_def by auto
      with expand_block_nth [OF r assms(3), of i l]
      have "expand_block lmax K i l ! r ! k = 0" by auto
      with False show ?thesis by simp
    qed
  qed
  then have "(\<Sum>r\<leftarrow>[0..<2 * lmax + 1]. expand_block lmax K i l ! r ! k * e ! r) =
      (\<Sum>r\<leftarrow>[0..<2 * lmax + 1]. if r = r0 then v ! k else 0)" by (rule arg_cong)
  also have "\<dots> = v ! k" using r0 by (rule sum_list_delta)
  finally show ?thesis using True by simp
next
  case False
  have "map (\<lambda>r. expand_block lmax K i l ! r ! k * e ! r) [0..<2 * lmax + 1] =
      map (\<lambda>r. 0) [0..<2 * lmax + 1]"
  proof (rule map_cong [OF refl])
    fix r assume "r \<in> set [0..<2 * lmax + 1]"
    then have r: "r < 2 * lmax + 1" by auto
    from expand_block_nth [OF r assms(3), of i l] False
    show "expand_block lmax K i l ! r ! k * e ! r = 0" by auto
  qed
  then have "(\<Sum>r\<leftarrow>[0..<2 * lmax + 1]. expand_block lmax K i l ! r ! k * e ! r) =
      (\<Sum>r\<leftarrow>[0..<2 * lmax + 1]. 0)" by (rule arg_cong)
  with False show ?thesis by (auto simp: sum_list_zero simp del: upt_Suc)
qed

lemma offset_append: "j \<le> length ls \<Longrightarrow> offset (ls @ [l]) j = offset ls j"
  by (simp add: offset_def)

lemma offset_total: "offset ls (length ls) = sum_list (map (\<lambda>l. 2 * l + 1) ls)"
  by (simp add: offset_def)

lemma block_partition:
  "k < sum_list (map (\<lambda>l. 2 * l + 1) ls) \<Longrightarrow>
     (\<Sum>j\<leftarrow>[0..<length ls].
        if offset ls j \<le> k \<and> k < offset ls j + 2 * ls ! j + 1 then (1::real) else 0) = 1"
proof (induction ls rule: rev_induct)
  case Nil
  then show ?case by simp
next
  case (snoc l ls)
  let ?K = "sum_list (map (\<lambda>l. 2 * l + 1) ls)"
  define F where "F = (\<lambda>j. if offset (ls @ [l]) j \<le> k \<and> k < offset (ls @ [l]) j + 2 * (ls @ [l]) ! j + 1
                       then (1::real) else 0)"
  define G where "G = (\<lambda>j. if offset ls j \<le> k \<and> k < offset ls j + 2 * ls ! j + 1
                       then (1::real) else 0)"
  have pre: "map F [0..<length ls] = map G [0..<length ls]"
    unfolding F_def G_def by (rule map_cong [OF refl]) (simp add: offset_append nth_append)
  have last: "F (length ls) = (if ?K \<le> k \<and> k < ?K + 2 * l + 1 then 1 else 0)"
    unfolding F_def by (simp add: offset_append offset_total)
  have "[0..<length (ls @ [l])] = [0..<length ls] @ [length ls]" by simp
  then have "sum_list (map F [0..<length (ls @ [l])]) =
      sum_list (map F [0..<length ls]) + F (length ls)"
    by (simp only: map_append sum_list_append list.map sum_list.Cons sum_list.Nil add_0_right)
  then have split: "sum_list (map F [0..<length (ls @ [l])]) =
      sum_list (map G [0..<length ls]) + (if ?K \<le> k \<and> k < ?K + 2 * l + 1 then 1 else 0)"
    by (simp only: pre last)
  show ?case
  proof (cases "k < ?K")
    case True
    from snoc.IH [OF this] have "sum_list (map G [0..<length ls]) = 1" unfolding G_def .
    with True split have "sum_list (map F [0..<length (ls @ [l])]) = 1" by simp
    then show ?thesis unfolding F_def .
  next
    case False
    have "map G [0..<length ls] = map (\<lambda>j. 0) [0..<length ls]"
    proof (rule map_cong [OF refl])
      fix j assume "j \<in> set [0..<length ls]"
      then have "j < length ls" by simp
      from offset_block_le_total [OF this] False
      show "G j = 0" unfolding G_def by simp
    qed
    then have "sum_list (map G [0..<length ls]) = (\<Sum>j\<leftarrow>[0..<length ls]. 0)"
      by (rule arg_cong)
    then have "sum_list (map G [0..<length ls]) = 0" by (simp add: sum_list_zero)
    with False snoc.prems split have "sum_list (map F [0..<length (ls @ [l])]) = 1" by simp
    then show ?thesis unfolding F_def .
  qed
qed

lemma flat_to_matrix_nth:
  assumes "j < length m" "r < length (m ! j)"
  shows "flat_to_matrix m v ! j ! r = (\<Sum>k\<leftarrow>[0..<length v]. m ! j ! r ! k * v ! k)"
  using assms by (simp add: flat_to_matrix_def)

lemma expand_matrix_rows:
  assumes "ls \<noteq> []" "length v = sum_list (map (\<lambda>l. 2 * l + 1) ls)"
    and "j < length ls" "r < 2 * Max (set ls) + 1"
  shows "flat_to_matrix (expand_blocks (Max (set ls)) (length v) 0 ls) v ! j ! r =
     (if Max (set ls) - ls ! j \<le> r \<and> r \<le> Max (set ls) + ls ! j
      then v ! (offset ls j + (r - (Max (set ls) - ls ! j))) else 0)"
proof -
  let ?lmax = "Max (set ls)" and ?K = "length v"
  let ?m = "expand_blocks ?lmax ?K 0 ls"
  have mj: "?m ! j = expand_block ?lmax ?K (offset ls j) (ls ! j)"
    using expand_blocks_nth [OF assms(3), of ?lmax ?K 0] by simp
  have l: "ls ! j \<le> ?lmax" using assms(3) by simp
  have i: "offset ls j + 2 * (ls ! j) + 1 \<le> ?K"
    using offset_block_le_total [OF assms(3)] assms(2) by simp
  have "j < length ?m" using assms(3) by (simp add: length_expand_blocks)
  moreover have "r < length (?m ! j)" unfolding mj using assms(4) by (simp add: expand_block_shape)
  ultimately have "flat_to_matrix ?m v ! j ! r = (\<Sum>k\<leftarrow>[0..<?K]. ?m ! j ! r ! k * v ! k)"
    by (rule flat_to_matrix_nth)
  also have "\<dots> = (if ?lmax - ls ! j \<le> r \<and> r \<le> ?lmax + ls ! j
      then v ! (offset ls j + (r - (?lmax - ls ! j))) else 0)"
    unfolding mj by (rule block_times_vector [OF l i assms(4)])
  finally show ?thesis .
qed

lemma expand_matrix_contract:
  assumes "ls \<noteq> []" "length v = sum_list (map (\<lambda>l. 2 * l + 1) ls)"
  shows "matrix_to_flat (expand_blocks (Max (set ls)) (length v) 0 ls) (length v)
           (flat_to_matrix (expand_blocks (Max (set ls)) (length v) 0 ls) v) = v"
proof (rule nth_equalityI)
  let ?lmax = "Max (set ls)" and ?K = "length v"
  let ?m = "expand_blocks ?lmax ?K 0 ls"
  let ?e = "flat_to_matrix ?m v"
  show "length (matrix_to_flat ?m ?K ?e) = length v"
    by (simp add: matrix_to_flat_def)
  fix k assume "k < length (matrix_to_flat ?m ?K ?e)"
  then have k: "k < ?K" by (simp add: matrix_to_flat_def)
  have inner: "(\<Sum>c\<leftarrow>[0..<length (?m ! j)]. ?m ! j ! c ! k * ?e ! j ! c) =
      v ! k * (if offset ls j \<le> k \<and> k < offset ls j + 2 * ls ! j + 1 then 1 else 0)"
    if j: "j \<in> set [0..<length ?m]" for j
  proof -
    from j have j: "j < length ls" by (simp add: length_expand_blocks)
    have mj: "?m ! j = expand_block ?lmax ?K (offset ls j) (ls ! j)"
      using expand_blocks_nth [OF j, of ?lmax ?K 0] by simp
    have l: "ls ! j \<le> ?lmax" using j by simp
    have i: "offset ls j + 2 * (ls ! j) + 1 \<le> ?K"
      using offset_block_le_total [OF j] assms(2) by simp
    have e: "\<forall>r<2 * ?lmax + 1. ?e ! j ! r =
           (if ?lmax - ls ! j \<le> r \<and> r \<le> ?lmax + ls ! j
            then v ! (offset ls j + (r - (?lmax - ls ! j))) else 0)"
      using expand_matrix_rows [OF assms j] by blast
    have "(\<Sum>c\<leftarrow>[0..<2 * ?lmax + 1]. expand_block ?lmax ?K (offset ls j) (ls ! j) ! c ! k * ?e ! j ! c) =
        (if offset ls j \<le> k \<and> k < offset ls j + 2 * ls ! j + 1 then v ! k else 0)"
      by (rule block_contract [OF l i k e])
    then show ?thesis unfolding mj by (simp add: expand_block_shape del: upt_Suc)
  qed
  have "matrix_to_flat ?m ?K ?e ! k =
      (\<Sum>j\<leftarrow>[0..<length ?m]. (\<Sum>c\<leftarrow>[0..<length (?m ! j)]. ?m ! j ! c ! k * ?e ! j ! c))"
    using k by (simp add: matrix_to_flat_def)
  also have "\<dots> = (\<Sum>j\<leftarrow>[0..<length ?m].
      v ! k * (if offset ls j \<le> k \<and> k < offset ls j + 2 * ls ! j + 1 then 1 else 0))"
    by (rule arg_cong [where f = sum_list], rule map_cong [OF refl], rule inner)
  also have "\<dots> = v ! k * (\<Sum>j\<leftarrow>[0..<length ls].
      if offset ls j \<le> k \<and> k < offset ls j + 2 * ls ! j + 1 then 1 else 0)"
    by (simp only: sum_list_const_mult length_expand_blocks)
  also have "\<dots> = v ! k"
    using block_partition [of k ls] k assms(2) by simp
  finally show "matrix_to_flat ?m ?K ?e ! k = v ! k" .
qed

lemma expand_matrix_example:
  "spherical_harmonics_expand_matrix [1, 0] =
     Inr [[[1, 0, 0, 0], [0, 1, 0, 0], [0, 0, 1, 0]],
          [[0, 0, 0, 0], [0, 0, 0, 1], [0, 0, 0, 0]]]"
  by (simp add: expand_matrix_closed expand_block_def upt_conv_Cons)

text \<open>
  Claim C7. For every non-empty list \<open>ls\<close> of degrees (its maximum is needed) and every
  flat vector \<open>v\<close> of length \<open>K\<close>, the sum of \<open>2 l + 1\<close> over \<open>ls\<close>:
  \<open>spherical_harmonics_expand_matrix\<close> returns a tensor \<open>m\<close>; multiplying \<open>v\<close> by \<open>m\<close> and
  contracting back with \<open>m\<close> gives \<open>v\<close> again; and the row \<open>j\<close> of the product holds the
  \<open>2 l\<^sub>j + 1\<close> values of the \<open>j\<close>-th block of \<open>v\<close> at the columns
  \<open>max ls - l\<^sub>j, ..., max ls + l\<^sub>j\<close> and zeros elsewhere.
\<close>

theorem expand_matrix_round_trip:
  assumes "ls \<noteq> []" "length v = sum_list (map (\<lambda>l. 2 * l + 1) ls)"
  shows "\<exists>m. spherical_harmonics_expand_matrix ls = Inr m \<and>
     matrix_to_flat m (length v) (flat_to_matrix m v) = v \<and>
     (\<forall>j<length ls. \<forall>c<2 * Max (set ls) + 1.
        flat_to_matrix m v ! j ! c =
          (if Max (set ls) - ls ! j \<le> c \<and> c \<le> Max (set ls) + ls ! j
           then v ! (sum_list (map (\<lambda>l. 2 * l + 1) (take j ls)) + (c - (Max (set ls) - ls ! j)))
           else 0))"
proof -
  have "spherical_harmonics_expand_matrix ls = Inr (expand_blocks (Max (set ls)) (length v) 0 ls)"
    using expand_matrix_closed [OF assms(1)] assms(2) by simp
  moreover note expand_matrix_contract [OF assms]
  moreover have "\<forall>j<length ls. \<forall>c<2 * Max (set ls) + 1.
        flat_to_matrix (expand_blocks (Max (set ls)) (length v) 0 ls) v ! j ! c =
          (if Max (set ls) - ls ! j \<le> c \<and> c \<le> Max (set ls) + ls ! j
           then v ! (sum_list (map (\<lambda>l. 2 * l + 1) (take j ls)) + (c - (Max (set ls) - ls ! j)))
           else 0)"
    using expand_matrix_rows [OF assms] unfolding offset_def by blast
  ultimately show ?thesis by blast
qed


theorem expand_matrix_round_trip_witness:
  "[1, 0] \<noteq> ([] :: nat list) \<and>
   length [5, 6, 7, 8 :: real] = sum_list (map (\<lambda>l. 2 * l + 1) [1, 0 :: nat]) \<and>
   spherical_harmonics_expand_matrix [1, 0] =
     Inr [[[1, 0, 0, 0], [0, 1, 0, 0], [0, 0, 1, 0]],
          [[0, 0, 0, 0], [0, 0, 0, 1], [0, 0, 0, 0]]] \<and>
   flat_to_matrix [[[1, 0, 0, 0], [0, 1, 0, 0], [0, 0, 1, 0]],
                   [[0, 0, 0, 0], [0, 0, 0, 1], [0, 0, 0, 0]]] [5, 6, 7, 8] =
     [[5, 6, 7], [0, 8, 0]] \<and>
   matrix_to_flat [[[1, 0, 0, 0], [0, 1, 0, 0], [0, 0, 1, 0]],
                   [[0, 0, 0, 0], [0, 0, 0, 1], [0, 0, 0, 0]]] 4 [[5, 6, 7], [0, 8, 0]] =
     [5, 6, 7, 8]"
proof -
  have ne: "[1, 0] \<noteq> ([] :: nat list)" by simp
  have len: "length [5, 6, 7, 8 :: real] = sum_list (map (\<lambda>l. 2 * l + 1) [1, 0 :: nat])"
    by simp
  have f: "flat_to_matrix [[[1, 0, 0, 0], [0, 1, 0, 0], [0, 0, 1, 0]],
                   [[0, 0, 0, 0], [0, 0, 0, 1], [0, 0, 0, 0]]] [5, 6, 7, 8] =
     [[5, 6, 7], [0, 8, 0]]"
    by (simp add: flat_to_matrix_def upt_conv_Cons)
  from expand_matrix_round_trip [OF ne len] obtain m where
    m: "spherical_harmonics_expand_matrix [1, 0] = Inr m"
    and rt: "matrix_to_flat m (length [5, 6, 7, 8 :: real]) (flat_to_matrix m [5, 6, 7, 8]) =
      [5, 6, 7, 8]"
    by blast
  from m expand_matrix_example
  have "m = [[[1, 0, 0, 0], [0, 1, 0, 0], [0, 0, 1, 0]],
          [[0, 0, 0, 0], [0, 0, 0, 1], [0, 0, 0, 0]]]"
    by simp
  with rt f ne len expand_matrix_example show ?thesis by (simp add: eval_nat_numeral)
qed

end
